theory Spec2Isabelle
  imports Main
begin

section \<open>Geometric primitives\<close>

text \<open>
  Modelled from the spec: \<open>Position\<close>, imported by smartSelect.ts from
  vs/editor/common/core and not part of the file. Section 3 of the specification: a
  position is a (line, column) pair, totally ordered by line and then column.
\<close>

datatype Position = Position (lineNumber: nat) (column: nat)

definition isBefore :: "Position \<Rightarrow> Position \<Rightarrow> bool" where
  "isBefore a b =
     (if lineNumber a < lineNumber b then True
      else if lineNumber b < lineNumber a then False
      else column a < column b)"

definition isBeforeOrEqual :: "Position \<Rightarrow> Position \<Rightarrow> bool" where
  "isBeforeOrEqual a b =
     (if lineNumber a < lineNumber b then True
      else if lineNumber b < lineNumber a then False
      else column a \<le> column b)"

definition equals :: "Position \<Rightarrow> Position \<Rightarrow> bool" where
  "equals a b = (lineNumber a = lineNumber b \<and> column a = column b)"

text \<open>
  Modelled from the spec: \<open>Range\<close>, from the same directory. Section 3 of the
  specification: a range is a pair of positions with start before or at end, with
  inclusive containment of positions and ranges and with equality of ranges. The
  constructor \<open>new Range(..)\<close> keeps start before or at end, exchanging the two corners
  when they are given in the other order; the four numbers of a range that was not built by
  the constructor need not be ordered.
\<close>

datatype Range =
  Range (startLineNumber: nat) (startColumn: nat) (endLineNumber: nat) (endColumn: nat)

definition newRange :: "nat \<Rightarrow> nat \<Rightarrow> nat \<Rightarrow> nat \<Rightarrow> Range" where
  "newRange sl sc el ec =
     (if sl > el \<or> (sl = el \<and> sc > ec) then Range el ec sl sc else Range sl sc el ec)"

definition getStartPosition :: "Range \<Rightarrow> Position" where
  "getStartPosition r = Position (startLineNumber r) (startColumn r)"

definition getEndPosition :: "Range \<Rightarrow> Position" where
  "getEndPosition r = Position (endLineNumber r) (endColumn r)"

definition equalsRange :: "Range \<Rightarrow> Range \<Rightarrow> bool" where
  "equalsRange a b =
     (startLineNumber a = startLineNumber b \<and> startColumn a = startColumn b \<and>
      endLineNumber a = endLineNumber b \<and> endColumn a = endColumn b)"

definition containsPosition :: "Range \<Rightarrow> Position \<Rightarrow> bool" where
  "containsPosition r p =
     (isBeforeOrEqual (getStartPosition r) p \<and> isBeforeOrEqual p (getEndPosition r))"

definition containsRange :: "Range \<Rightarrow> Range \<Rightarrow> bool" where
  "containsRange r other =
     (containsPosition r (getStartPosition other) \<and> containsPosition r (getEndPosition other))"

text \<open>
  Modelled from the spec: \<open>Selection\<close>, from the same directory. Section 3 of the
  specification: a selection is a range plus a direction. \<open>new Selection(l1, c1, l2, c2)\<close>
  runs from the anchor \<open>(l1, c1)\<close> to the active end \<open>(l2, c2)\<close>; as a range it is
  \<open>new Range(l1, c1, l2, c2)\<close>.
\<close>

datatype Selection =
  Selection (selectionStartLineNumber: nat) (selectionStartColumn: nat)
            (positionLineNumber: nat) (positionColumn: nat)

definition asRange :: "Selection \<Rightarrow> Range" where
  "asRange s =
     newRange (selectionStartLineNumber s) (selectionStartColumn s)
              (positionLineNumber s) (positionColumn s)"

section \<open>The bracket oracle of the text model\<close>

text \<open>
  \<open>IFoundBracket\<close> and the three bracket queries of the editor's text model
  (\<open>model.findPrevBracket\<close>, \<open>model.findNextBracket\<close>, \<open>model.matchBracket\<close>) are
  declared in vs/editor/common/editorCommon, outside this file. The text model is an input
  of \<open>ExpandBracketController.run\<close>, so it is a parameter here: a record of three
  functions, an absent answer (\<open>null\<close>) being \<open>None\<close>.

  The order of the two ranges that \<open>matchBracket\<close> answers with is the one the file is
  written for: the range of the bracket at the position asked for comes first and the range
  of its partner second. Lines 185, 258 and 259 ask at the start of a bracket they hold for
  the pair of that bracket, and the test of line 205,
  \<open>matchPrev[0].equalsRange(matchNext[1])\<close>, compares the first range found at the
  selection's start with the second range found at its end, which can hold for a pair of
  two brackets only in this order. The theorems below state this order as a hypothesis
  wherever they say which range is the opening bracket and which the closing one.
\<close>

datatype IFoundBracket = IFoundBracket (rangeOf: Range) (isOpen: bool)

type_synonym BracketPair = "Range \<times> Range"

record Model =
  findPrevBracket :: "Position \<Rightarrow> IFoundBracket option"
  findNextBracket :: "Position \<Rightarrow> IFoundBracket option"
  matchBracket :: "Position \<Rightarrow> BracketPair option"

section \<open>ExpandBracketController.run, for one selection\<close>

text \<open>
  The two selections the controller builds from an answer \<open>m\<close> of \<open>matchBracket\<close>:
  \<open>new Selection(m[0].startLineNumber, m[0].startColumn, m[1].endLineNumber, m[1].endColumn)\<close>
  and
  \<open>new Selection(m[0].endLineNumber, m[0].endColumn, m[1].startLineNumber, m[1].startColumn)\<close>.
\<close>

definition outerSpan :: "BracketPair \<Rightarrow> Selection" where
  "outerSpan m =
     Selection (startLineNumber (fst m)) (startColumn (fst m))
               (endLineNumber (snd m)) (endColumn (snd m))"

definition innerSpan :: "BracketPair \<Rightarrow> Selection" where
  "innerSpan m =
     Selection (endLineNumber (fst m)) (endColumn (fst m))
               (startLineNumber (snd m)) (startColumn (snd m))"

text \<open>
  The two ranges a pair of brackets spans: the full span, from the start of the opening
  bracket to the end of the closing one, and the interior, from the end of the opening
  bracket to the start of the closing one, without the bracket characters.
\<close>

definition fullSpan :: "Range \<Rightarrow> Range \<Rightarrow> Range" where
  "fullSpan opening closing =
     Range (startLineNumber opening) (startColumn opening)
           (endLineNumber closing) (endColumn closing)"

definition interior :: "Range \<Rightarrow> Range \<Rightarrow> Range" where
  "interior opening closing =
     Range (endLineNumber opening) (endColumn opening)
           (startLineNumber closing) (startColumn closing)"

text \<open>
  Lines 182-199, the direct neighbour bracket. \<open>None\<close> means that no \<open>return\<close> was
  reached and control falls through to line 201.
\<close>

definition neighborBracket :: "Model \<Rightarrow> Selection \<Rightarrow> Selection option" where
  "neighborBracket model selection =
     (let originalStartPosition = getStartPosition (asRange selection) in
      case findPrevBracket model originalStartPosition of
        None \<Rightarrow> None
      | Some prevBracket \<Rightarrow>
          if equals (getEndPosition (rangeOf prevBracket)) originalStartPosition then
            (case matchBracket model (getStartPosition (rangeOf prevBracket)) of
               None \<Rightarrow> None
             | Some matchPrevBracket \<Rightarrow>
                 if isOpen prevBracket then Some (outerSpan matchPrevBracket)
                 else Some (innerSpan matchPrevBracket))
          else None)"

text \<open>Lines 201-227: the selection directly inside a pair, then the bare cursor.\<close>

definition insideOrCursor :: "Model \<Rightarrow> Selection \<Rightarrow> Selection option" where
  "insideOrCursor model selection =
     (let originalStartPosition = getStartPosition (asRange selection);
          originalEndPosition = getEndPosition (asRange selection);
          matchPrev = matchBracket model originalStartPosition;
          matchNext = matchBracket model originalEndPosition
      in
        if matchPrev \<noteq> None \<and> matchNext \<noteq> None \<and>
           equalsRange (fst (the matchPrev)) (snd (the matchNext)) \<and>
           \<not> equals (getStartPosition (fst (the matchPrev))) originalStartPosition
        then Some (outerSpan (the matchPrev))
        else if equals originalStartPosition originalEndPosition \<and> matchPrev \<noteq> None
        then Some (outerSpan (the matchPrev))
        else if equals originalStartPosition originalEndPosition \<and> matchNext \<noteq> None
        then Some (outerSpan (the matchNext))
        else None)"

text \<open>
  Lines 229-238 and 240-250, the two \<open>do .. while\<close> loops. Nothing in the file bounds
  the number of iterations, so each loop is a partial function: the outer \<open>None\<close> is a scan
  that never ends, \<open>Some None\<close> a scan that ran out of brackets (\<open>prevBracket\<close> is
  \<open>null\<close> on exit), \<open>Some (Some b)\<close> a scan that stopped at \<open>b\<close> with a negative count.
\<close>

partial_function (option) scanPrev :: "Model \<Rightarrow> Position \<Rightarrow> int \<Rightarrow> IFoundBracket option option"
  where
  "scanPrev model currentPosition setCount =
     (case findPrevBracket model currentPosition of
        None \<Rightarrow> Some None
      | Some prevBracket \<Rightarrow>
          if 0 \<le> (if \<not> isOpen prevBracket then setCount + 1 else setCount - 1)
          then scanPrev model (getStartPosition (rangeOf prevBracket))
                 (if \<not> isOpen prevBracket then setCount + 1 else setCount - 1)
          else Some (Some prevBracket))"

declare scanPrev.simps [code]

partial_function (option) scanNext :: "Model \<Rightarrow> Position \<Rightarrow> int \<Rightarrow> IFoundBracket option option"
  where
  "scanNext model currentPosition setCount =
     (case findNextBracket model currentPosition of
        None \<Rightarrow> Some None
      | Some nextBracket \<Rightarrow>
          if 0 \<le> (if isOpen nextBracket then setCount + 1 else setCount - 1)
          then scanNext model (getEndPosition (rangeOf nextBracket))
                 (if isOpen nextBracket then setCount + 1 else setCount - 1)
          else Some (Some nextBracket))"

declare scanNext.simps [code]

text \<open>
  Lines 252-291. \<open>matchPrev\<close> and \<open>matchNext\<close> are the answers of two separate
  \<open>matchBracket\<close> calls, hence two distinct arrays: the identity tests
  \<open>bracketsToSelect === matchPrev\<close> and \<open>bracketsToSelect === matchNext\<close> of lines 277
  and 283 tell which of the two assignments was taken, so the selection built is attached
  to each assignment here. The last \<open>else\<close> of the chain (lines 269-275) is kept although
  its two guards exclude each other.
\<close>

definition pickOutermost ::
  "Model \<Rightarrow> Selection \<Rightarrow> IFoundBracket option \<Rightarrow> IFoundBracket option \<Rightarrow> Selection" where
  "pickOutermost model selection prevBracket nextBracket =
     (if prevBracket = None \<and> nextBracket = None then selection
      else
        let matchPrev = (case prevBracket of
                           None \<Rightarrow> None
                         | Some b \<Rightarrow> matchBracket model (getStartPosition (rangeOf b)));
            matchNext = (case nextBracket of
                           None \<Rightarrow> None
                         | Some b \<Rightarrow> matchBracket model (getStartPosition (rangeOf b)))
        in
          case matchPrev of
            None \<Rightarrow> (case matchNext of None \<Rightarrow> selection | Some mn \<Rightarrow> outerSpan mn)
          | Some mp \<Rightarrow>
              (case matchNext of
                 None \<Rightarrow> innerSpan mp
               | Some mn \<Rightarrow>
                   if isBefore (getEndPosition (snd mp)) (getEndPosition (fst mn))
                   then outerSpan mn
                   else if \<not> isBefore (getEndPosition (snd mp)) (getEndPosition (fst mn))
                   then innerSpan mp
                   else outerSpan mp))"

definition balancedScan :: "Model \<Rightarrow> Selection \<Rightarrow> Selection option" where
  "balancedScan model selection =
     (case scanPrev model (getStartPosition (asRange selection)) 0 of
        None \<Rightarrow> None
      | Some prevBracket \<Rightarrow>
          (case scanNext model (getEndPosition (asRange selection)) 0 of
             None \<Rightarrow> None
           | Some nextBracket \<Rightarrow> Some (pickOutermost model selection prevBracket nextBracket)))"

text \<open>Everything after the neighbour check: lines 201-291.\<close>

definition afterNeighborCheck :: "Model \<Rightarrow> Selection \<Rightarrow> Selection option" where
  "afterNeighborCheck model selection =
     (case insideOrCursor model selection of
        Some s \<Rightarrow> Some s
      | None \<Rightarrow> balancedScan model selection)"

text \<open>The callback of \<open>getSelections().map\<close>, lines 178-292.\<close>

definition expandSelection :: "Model \<Rightarrow> Selection \<Rightarrow> Selection option" where
  "expandSelection model selection =
     (case neighborBracket model selection of
        Some s \<Rightarrow> Some s
      | None \<Rightarrow> afterNeighborCheck model selection)"

section \<open>SmartSelectController: the selection state machine\<close>

text \<open>
  \<open>ILogicalSelectionEntry\<close> is declared in tokenSelectionSupport, outside this file; the
  controller reads only the four numbers of \<open>element.range\<close>, which need not be ordered.
\<close>

datatype ILogicalSelectionEntry = ILogicalSelectionEntry (entryType: string) (entryRange: Range)

text \<open>
  The class \<open>State\<close> of lines 22-35. Objects of the class refer to each other through
  \<open>next\<close> and \<open>previous\<close> and are updated after their creation, so they live in a store,
  a list of objects addressed by position; \<open>editor\<close> holds the identity of the editor.
\<close>

record State =
  editor :: nat
  "next" :: "nat option"
  previous :: "nat option"
  selection :: Range

text \<open>
  Modelled from the spec: the document view and its cursor-move notification channel
  (\<open>ICommonCodeEditor\<close>, outside this file). The view has an identity, a current
  selection, read by the state machine as a range, and a number of live listeners
  subscribed by line 116; \<open>setSelection\<close> either throws, which \<open>refuses\<close> decides and
  which leaves the view as it was, or makes the range the current selection and notifies
  the listeners.
\<close>

record Editor =
  editorId :: nat
  getSelection :: Range
  cursorListeners :: nat
  refuses :: "Range \<Rightarrow> bool"

text \<open>
  The module variables \<open>state\<close> and \<open>ignoreSelection\<close> of lines 38-39, with the store
  of \<open>State\<close> objects that \<open>state\<close> points into.
\<close>

record Shared =
  heap :: "State list"
  state :: "nat option"
  ignoreSelection :: bool

datatype Outcome = Returned | Threw

definition initialShared :: Shared where
  "initialShared = \<lparr> heap = [], state = None, ignoreSelection = False \<rparr>"

text \<open>The constructor, lines 29-34.\<close>

definition newState :: "Editor \<Rightarrow> State" where
  "newState e =
     \<lparr> editor = editorId e, next = None, previous = None, selection = getSelection e \<rparr>"

text \<open>
  The listener of lines 116-122, run once for a cursor move: every live listener of the
  view returns at once while \<open>ignoreSelection\<close> is set; otherwise it forgets the state
  and disposes itself.
\<close>

definition cursorPositionChanged :: "Shared \<Rightarrow> Editor \<Rightarrow> Shared \<times> Editor" where
  "cursorPositionChanged g e =
     (if cursorListeners e = 0 \<or> ignoreSelection g then (g, e)
      else (g\<lparr>state := None\<rparr>, e\<lparr>cursorListeners := 0\<rparr>))"

text \<open>
  Modelled from the spec: \<open>editor.setSelection\<close>, which throws or makes the range the
  current selection and then notifies the cursor listeners.
\<close>

definition setSelection :: "Shared \<Rightarrow> Editor \<Rightarrow> Range \<Rightarrow> (Shared \<times> Editor) \<times> Outcome" where
  "setSelection g e r =
     (if refuses e r then ((g, e), Threw)
      else (cursorPositionChanged g (e\<lparr>getSelection := r\<rparr>), Returned))"

text \<open>
  Modelled from the spec: a cursor move that does not come from the state machine; the
  listeners are notified with the guard flag as it is.
\<close>

definition userMovesCursor :: "Shared \<Rightarrow> Editor \<Rightarrow> Range \<Rightarrow> Shared \<times> Editor" where
  "userMovesCursor g e r = cursorPositionChanged g (e\<lparr>getSelection := r\<rparr>)"

text \<open>
  \<open>new Range(range.startLineNumber, range.startColumn, range.endLineNumber, range.endColumn)\<close>
  of lines 92 and 99.
\<close>

definition entryAsRange :: "ILogicalSelectionEntry \<Rightarrow> Range" where
  "entryAsRange element =
     newRange (startLineNumber (entryRange element)) (startColumn (entryRange element))
              (endLineNumber (entryRange element)) (endColumn (entryRange element))"

text \<open>Lines 89-94, the filter.\<close>

definition enclosesSelection :: "Editor \<Rightarrow> ILogicalSelectionEntry \<Rightarrow> bool" where
  "enclosesSelection e element =
     (let range = entryAsRange element
      in containsPosition range (getStartPosition (getSelection e)) \<and>
         containsPosition range (getEndPosition (getSelection e)))"

text \<open>
  Lines 95-105, the \<open>forEach\<close>: each surviving element gets a new \<open>State\<close> whose
  \<open>next\<close> is the state created before it, and that state's \<open>previous\<close> is set to
  the new one. The new object's address is the length of the store.
\<close>

fun linkStates ::
  "Editor \<Rightarrow> ILogicalSelectionEntry list \<Rightarrow> State list \<Rightarrow> nat option \<Rightarrow> State list \<times> nat option"
  where
  "linkStates e [] h lastState = (h, lastState)"
| "linkStates e (element # elements) h lastState =
     (let st = (newState e)\<lparr>selection := entryAsRange element\<rparr>
      in case lastState of
           None \<Rightarrow> linkStates e elements (h @ [st]) (Some (length h))
         | Some l \<Rightarrow>
             linkStates e elements
               ((h @ [st\<lparr>next := Some l\<rparr>])[l := (h ! l)\<lparr>previous := Some (length h)\<rparr>])
               (Some (length h)))"

text \<open>Lines 84-122, the callback that builds the chain from the elements received.\<close>

definition buildChain :: "Shared \<Rightarrow> Editor \<Rightarrow> ILogicalSelectionEntry list \<Rightarrow> Shared \<times> Editor" where
  "buildChain g e elements =
     (if elements = [] then (g, e)
      else
        case linkStates e (filter (enclosesSelection e) elements) (heap g) None of
          (h, lastState) \<Rightarrow>
            let editorState = (newState e)\<lparr>next := lastState\<rparr>;
                h' = (case lastState of
                        None \<Rightarrow> h @ [editorState]
                      | Some l \<Rightarrow> (h @ [editorState])[l := (h ! l)\<lparr>previous := Some (length h)\<rparr>])
            in (g\<lparr>heap := h', state := Some (length h)\<rparr>,
                e\<lparr>cursorListeners := cursorListeners e + 1\<rparr>))"

text \<open>Lines 137-142: the guard flag around \<open>setSelection\<close>, released by \<open>finally\<close>.\<close>

definition applySelection :: "Shared \<Rightarrow> Editor \<Rightarrow> Range \<Rightarrow> (Shared \<times> Editor) \<times> Outcome" where
  "applySelection g e r =
     (case setSelection (g\<lparr>ignoreSelection := True\<rparr>) e r of
        ((g', e'), outcome) \<Rightarrow> ((g'\<lparr>ignoreSelection := False\<rparr>, e'), outcome))"

text \<open>Lines 126-145, the second callback.\<close>

definition step :: "Shared \<Rightarrow> Editor \<Rightarrow> bool \<Rightarrow> (Shared \<times> Editor) \<times> Outcome" where
  "step g e forward =
     (case state g of
        None \<Rightarrow> ((g, e), Returned)
      | Some a \<Rightarrow>
          (case (if forward then next (heap g ! a) else previous (heap g ! a)) of
             None \<Rightarrow> ((g\<lparr>state := None\<rparr>, e), Returned)
           | Some b \<Rightarrow> applySelection (g\<lparr>state := Some b\<rparr>) e (selection (heap g ! b))))"

text \<open>
  Lines 70-124: a state of another editor is forgotten, and without a state the chain is
  built from the answer of \<open>getRangesToPosition\<close>, the argument \<open>elements\<close> (an
  absent answer is the empty list).
\<close>

definition ensureChain ::
  "Shared \<Rightarrow> Editor \<Rightarrow> ILogicalSelectionEntry list \<Rightarrow> Shared \<times> Editor" where
  "ensureChain g e elements =
     (let g1 = (case state g of
                  None \<Rightarrow> g
                | Some a \<Rightarrow> if editor (heap g ! a) \<noteq> editorId e then g\<lparr>state := None\<rparr> else g)
      in if state g1 = None then buildChain g1 e elements else (g1, e))"

text \<open>\<open>SmartSelectController.run\<close>, lines 68-146.\<close>

definition run ::
  "Shared \<Rightarrow> Editor \<Rightarrow> bool \<Rightarrow> ILogicalSelectionEntry list \<Rightarrow> (Shared \<times> Editor) \<times> Outcome" where
  "run g e forward elements =
     (case ensureChain g e elements of (g2, e2) \<Rightarrow> step g2 e2 forward)"

text \<open>Shrinking again and again, once for each answer of the range provider.\<close>

fun shrinkRepeatedly ::
  "Shared \<Rightarrow> Editor \<Rightarrow> ILogicalSelectionEntry list list \<Rightarrow> Shared \<times> Editor" where
  "shrinkRepeatedly g e [] = (g, e)"
| "shrinkRepeatedly g e (elements # rest) =
     (case run g e False elements of ((g', e'), outcome) \<Rightarrow> shrinkRepeatedly g' e' rest)"

text \<open>
  The ranges of the chain read from a state outward through \<open>next\<close>, at most \<open>n\<close> of
  them.
\<close>

fun chainFrom :: "State list \<Rightarrow> nat \<Rightarrow> nat option \<Rightarrow> Range list" where
  "chainFrom h 0 a = []"
| "chainFrom h (Suc n) None = []"
| "chainFrom h (Suc n) (Some a) = selection (h ! a) # chainFrom h n (next (h ! a))"

definition chain :: "Shared \<Rightarrow> Range list" where
  "chain g = chainFrom (heap g) (length (heap g)) (state g)"

text \<open>Consecutive members of a list are related.\<close>

fun consecutive :: "('a \<Rightarrow> 'a \<Rightarrow> bool) \<Rightarrow> 'a list \<Rightarrow> bool" where
  "consecutive P [] = True"
| "consecutive P [x] = True"
| "consecutive P (x # y # ys) = (P x y \<and> consecutive P (y # ys))"

section \<open>A one-line document as a text model\<close>

text \<open>
  Modelled from the spec: the bracket queries of section 4.2, for a document of one line
  whose bracket tokens are one character wide and listed from left to right.
  \<open>findPrevBracket\<close> answers with the nearest token that ends at or before the position
  and \<open>findNextBracket\<close> with the nearest token that starts at or after it.
  \<open>matchBracket\<close> takes the first token with a partner that the position is inside
  or touching and answers with the range of that token and the range of its partner, or
  with nothing when there is no such token. The order of the two ranges is the one the file
  is written for, not the one section 4.2 gives.
\<close>

datatype Token = Token (tokenColumn: nat) (tokenIsOpen: bool) (partnerColumn: "nat option")

definition tokenRange :: "nat \<Rightarrow> Range" where
  "tokenRange c = Range 1 c 1 (c + 1)"

definition asFound :: "Token \<Rightarrow> IFoundBracket" where
  "asFound t = IFoundBracket (tokenRange (tokenColumn t)) (tokenIsOpen t)"

definition lineModel :: "Token list \<Rightarrow> Model" where
  "lineModel ts =
     \<lparr> findPrevBracket = (\<lambda>p.
         case filter (\<lambda>t. isBeforeOrEqual (getEndPosition (tokenRange (tokenColumn t))) p) ts of
           [] \<Rightarrow> None
         | t # rest \<Rightarrow> Some (asFound (last (t # rest)))),
       findNextBracket = (\<lambda>p.
         case filter (\<lambda>t. isBeforeOrEqual p (getStartPosition (tokenRange (tokenColumn t)))) ts of
           [] \<Rightarrow> None
         | t # rest \<Rightarrow> Some (asFound t)),
       matchBracket = (\<lambda>p.
         case filter (\<lambda>t. containsPosition (tokenRange (tokenColumn t)) p \<and>
                          partnerColumn t \<noteq> None) ts of
           [] \<Rightarrow> None
         | t # rest \<Rightarrow>
             Some (tokenRange (tokenColumn t), tokenRange (the (partnerColumn t)))) \<rparr>"

text \<open>The document \<open>(abc)\<close>: an opening bracket in column 1, its partner in column 5.\<close>

definition docAbc :: Model where
  "docAbc = lineModel [Token 1 True (Some 5), Token 5 False (Some 1)]"

text \<open>
  The document \<open>( x [ )\<close>: the round pair in columns 1 and 7, a square opening bracket
  without partner in column 5, the letter in column 3.
\<close>

definition docOpenRight :: Model where
  "docOpenRight = lineModel [Token 1 True (Some 7), Token 5 True None, Token 7 False (Some 1)]"

text \<open>
  The document \<open>( ] x )\<close>: the round pair in columns 1 and 7, a square closing bracket
  without partner in column 3, the letter in column 5.
\<close>

definition docCloseLeft :: Model where
  "docCloseLeft = lineModel [Token 1 True (Some 7), Token 3 False None, Token 7 False (Some 1)]"

text \<open>
  The document \<open>[ { ] ( } x )\<close>: the square pair in columns 1 and 5, the curly pair in
  columns 3 and 9, the round pair in columns 7 and 13, the letter in column 11.
\<close>

definition docCrossed :: Model where
  "docCrossed = lineModel
     [Token 1 True (Some 5), Token 3 True (Some 9), Token 5 False (Some 1),
      Token 7 True (Some 13), Token 9 False (Some 3), Token 13 False (Some 7)]"

text \<open>
  The document \<open>( [ x { ] )\<close>: the round pair in columns 1 and 11, the square pair in
  columns 3 and 9, a curly opening bracket without partner in column 7, the letter in
  column 5.
\<close>

definition docSkew :: Model where
  "docSkew = lineModel
     [Token 1 True (Some 11), Token 3 True (Some 9), Token 7 True None,
      Token 9 False (Some 3), Token 11 False (Some 1)]"




text \<open>
  The document \<open>begin x end\<close> with the brackets \<open>begin\<close> (columns 1 to 6) and
  \<open>end\<close> (columns 9 to 12), with the same three queries.
\<close>

definition docBeginEnd :: Model where
  "docBeginEnd =
     \<lparr> findPrevBracket = (\<lambda>p.
         if isBeforeOrEqual (Position 1 12) p then Some (IFoundBracket (Range 1 9 1 12) False)
         else if isBeforeOrEqual (Position 1 6) p then Some (IFoundBracket (Range 1 1 1 6) True)
         else None),
       findNextBracket = (\<lambda>p.
         if isBeforeOrEqual p (Position 1 1) then Some (IFoundBracket (Range 1 1 1 6) True)
         else if isBeforeOrEqual p (Position 1 9) then Some (IFoundBracket (Range 1 9 1 12) False)
         else None),
       matchBracket = (\<lambda>p.
         if containsPosition (Range 1 1 1 6) p then Some (Range 1 1 1 6, Range 1 9 1 12)
         else if containsPosition (Range 1 9 1 12) p then Some (Range 1 9 1 12, Range 1 1 1 6)
         else None) \<rparr>"

section \<open>Well-formed stores\<close>

text \<open>
  The two links of every \<open>State\<close> in the store agree: the \<open>next\<close> of a state points
  to a state of the same editor whose \<open>previous\<close> points back, and conversely.
\<close>

definition linked :: "State list \<Rightarrow> bool" where
  "linked h =
     (\<forall>a<length h.
        (\<forall>b. next (h ! a) = Some b \<longrightarrow>
           b < length h \<and> previous (h ! b) = Some a \<and> editor (h ! b) = editor (h ! a)) \<and>
        (\<forall>b. previous (h ! a) = Some b \<longrightarrow>
           b < length h \<and> next (h ! b) = Some a \<and> editor (h ! b) = editor (h ! a)))"

text \<open>
  Between two calls of \<open>run\<close>: the store is linked, the guard flag is down, and a
  current state, if there is one, is in the store; if it belongs to the editor at hand, the
  editor shows its range and still has a live cursor listener.
\<close>

definition consistent :: "Shared \<Rightarrow> Editor \<Rightarrow> bool" where
  "consistent g e =
     (linked (heap g) \<and> \<not> ignoreSelection g \<and>
      (\<forall>a. state g = Some a \<longrightarrow>
         a < length (heap g) \<and>
         (editor (heap g ! a) = editorId e \<longrightarrow>
            getSelection e = selection (heap g ! a) \<and> 0 < cursorListeners e)))"

text \<open>
  An editor with the caret in line 1, column 5, whose \<open>setSelection\<close> never throws, and
  one whose \<open>setSelection\<close> always throws.
\<close>

definition caretEditor :: Editor where
  "caretEditor =
     \<lparr> editorId = 1, getSelection = Range 1 5 1 5, cursorListeners = 0,
       refuses = (\<lambda>r. False) \<rparr>"

definition throwingEditor :: Editor where
  "throwingEditor =
     \<lparr> editorId = 1, getSelection = Range 1 5 1 5, cursorListeners = 0,
       refuses = (\<lambda>r. True) \<rparr>"

text \<open>
  Two answers of the range provider for that caret: a word (columns 3 to 7) and its line
  (columns 1 to 10), the line first and the word first.
\<close>

definition outermostFirst :: "ILogicalSelectionEntry list" where
  "outermostFirst =
     [ILogicalSelectionEntry ''line'' (Range 1 1 1 10),
      ILogicalSelectionEntry ''word'' (Range 1 3 1 7)]"

definition innermostFirst :: "ILogicalSelectionEntry list" where
  "innermostFirst =
     [ILogicalSelectionEntry ''word'' (Range 1 3 1 7),
      ILogicalSelectionEntry ''line'' (Range 1 1 1 10)]"

text \<open>
  Another answer for that caret: two adjacent statements (columns 1 to 5 and 5 to 9) that
  meet at the caret.
\<close>

definition adjacentSiblings :: "ILogicalSelectionEntry list" where
  "adjacentSiblings =
     [ILogicalSelectionEntry ''statement'' (Range 1 1 1 5),
      ILogicalSelectionEntry ''statement'' (Range 1 5 1 9)]"

text \<open>
  The state reached from the initial one by growing once when the provider answers with the
  line first, the state reached from there by shrinking once, and the state reached from
  there by growing once.
\<close>

definition atWord :: "Shared \<times> Editor" where
  "atWord = fst (run initialShared caretEditor True outermostFirst)"

definition atCaret :: "Shared \<times> Editor" where
  "atCaret = fst (run (fst atWord) (snd atWord) False [])"

definition atLine :: "Shared \<times> Editor" where
  "atLine = fst (run (fst atWord) (snd atWord) True [])"

section \<open>Properties of the bracket expansion\<close>

subsection \<open>The direct neighbour bracket\<close>

text \<open>
  The range of a selection built from the two ranges of a pair, whichever of them it starts
  from.
\<close>

lemma asRange_forward:
  "isBeforeOrEqual (Position l1 c1) (Position l2 c2) \<Longrightarrow>
     asRange (Selection l1 c1 l2 c2) = Range l1 c1 l2 c2"
  by (auto simp: asRange_def newRange_def isBeforeOrEqual_def split: if_splits)

lemma asRange_backward:
  "isBeforeOrEqual (Position l2 c2) (Position l1 c1) \<Longrightarrow>
     asRange (Selection l1 c1 l2 c2) = Range l2 c2 l1 c1"
  by (auto simp: asRange_def newRange_def isBeforeOrEqual_def split: if_splits)

lemma asRange_innerSpan:
  "isBeforeOrEqual (getEndPosition opening) (getStartPosition closing) \<Longrightarrow>
     asRange (innerSpan (opening, closing)) = interior opening closing"
  by (simp add: innerSpan_def interior_def getEndPosition_def getStartPosition_def
        asRange_forward)

lemma asRange_outerSpan_reversed:
  "isBeforeOrEqual (getEndPosition opening) (getStartPosition closing) \<Longrightarrow>
     asRange (outerSpan (closing, opening)) = interior opening closing"
  by (simp add: outerSpan_def interior_def getEndPosition_def getStartPosition_def
        asRange_backward)

lemma asRange_outerSpan:
  "isBeforeOrEqual (getStartPosition opening) (getEndPosition closing) \<Longrightarrow>
     asRange (outerSpan (opening, closing)) = fullSpan opening closing"
  by (simp add: outerSpan_def fullSpan_def getEndPosition_def getStartPosition_def
        asRange_forward)

lemma asRange_innerSpan_reversed:
  "isBeforeOrEqual (getStartPosition opening) (getEndPosition closing) \<Longrightarrow>
     asRange (innerSpan (closing, opening)) = fullSpan opening closing"
  by (simp add: innerSpan_def fullSpan_def getEndPosition_def getStartPosition_def
        asRange_backward)


text \<open>
  Claim C6, as amended. When the nearest bracket before the selection ends exactly at the
  selection's start and \<open>matchBracket\<close> answers at its start with its range and the
  range of its partner, the expansion runs from the bracket's start to the partner's end if
  the bracket is an opening one, and from the bracket's end back to the partner's start if
  it is a closing one; as a range it is the full span of the pair in both cases. In
  \<open>(abc)\<close> the caret immediately left of \<open>)\<close> has no neighbour bracket, and its
  expansion is the interior \<open>abc\<close>, from the closing bracket's start back to the
  opening bracket's end.
\<close>

theorem neighbor_bracket_selects:
  assumes "findPrevBracket model (getStartPosition (asRange sel)) = Some prevBracket"
      and "equals (getEndPosition (rangeOf prevBracket)) (getStartPosition (asRange sel))"
      and "matchBracket model (getStartPosition (rangeOf prevBracket)) =
             Some (rangeOf prevBracket, partner)"
      and "if isOpen prevBracket
           then isBeforeOrEqual (getStartPosition (rangeOf prevBracket)) (getEndPosition partner)
           else isBeforeOrEqual (getStartPosition partner) (getEndPosition (rangeOf prevBracket))"
  shows "expandSelection model sel =
           Some (if isOpen prevBracket then outerSpan (rangeOf prevBracket, partner)
                 else innerSpan (rangeOf prevBracket, partner)) \<and>
         asRange (the (expandSelection model sel)) =
           (if isOpen prevBracket then fullSpan (rangeOf prevBracket) partner
            else fullSpan partner (rangeOf prevBracket)) \<and>
         expandSelection docAbc (Selection 1 5 1 5) = Some (Selection 1 5 1 2) \<and>
         asRange (Selection 1 5 1 2) = interior (Range 1 1 1 2) (Range 1 5 1 6)"
proof -
  have r: "expandSelection model sel =
           Some (if isOpen prevBracket then outerSpan (rangeOf prevBracket, partner)
                 else innerSpan (rangeOf prevBracket, partner))"
    using assms(1-3) by (simp add: expandSelection_def neighborBracket_def)
  have s: "asRange (the (expandSelection model sel)) =
           (if isOpen prevBracket then fullSpan (rangeOf prevBracket) partner
            else fullSpan partner (rangeOf prevBracket))"
    using assms(4) by (simp add: r asRange_outerSpan asRange_innerSpan_reversed)
  have e: "expandSelection docAbc (Selection 1 5 1 5) = Some (Selection 1 5 1 2)"
    by code_simp
  have i: "asRange (Selection 1 5 1 2) = interior (Range 1 1 1 2) (Range 1 5 1 6)"
    by code_simp
  from r s e i show ?thesis by blast
qed

text \<open>
  The theorem at the document \<open>(abc)\<close>, for the caret right after the opening bracket
  and for the caret right after the closing one.
\<close>

theorem neighbor_bracket_selects_witness:
  "expandSelection docAbc (Selection 1 2 1 2) = Some (Selection 1 1 1 6) \<and>
   asRange (the (expandSelection docAbc (Selection 1 2 1 2))) = Range 1 1 1 6 \<and>
   expandSelection docAbc (Selection 1 6 1 6) = Some (Selection 1 6 1 1) \<and>
   asRange (the (expandSelection docAbc (Selection 1 6 1 6))) = Range 1 1 1 6"
proof -
  have p1: "findPrevBracket docAbc (getStartPosition (asRange (Selection 1 2 1 2))) =
              Some (IFoundBracket (Range 1 1 1 2) True)"
    by code_simp
  have e1: "equals (getEndPosition (rangeOf (IFoundBracket (Range 1 1 1 2) True)))
              (getStartPosition (asRange (Selection 1 2 1 2)))"
    by code_simp
  have m1: "matchBracket docAbc (getStartPosition (rangeOf (IFoundBracket (Range 1 1 1 2) True))) =
              Some (rangeOf (IFoundBracket (Range 1 1 1 2) True), Range 1 5 1 6)"
    by code_simp
  have o1: "if isOpen (IFoundBracket (Range 1 1 1 2) True)
            then isBeforeOrEqual (getStartPosition (rangeOf (IFoundBracket (Range 1 1 1 2) True)))
                   (getEndPosition (Range 1 5 1 6))
            else isBeforeOrEqual (getStartPosition (Range 1 5 1 6))
                   (getEndPosition (rangeOf (IFoundBracket (Range 1 1 1 2) True)))"
    by code_simp
  have p2: "findPrevBracket docAbc (getStartPosition (asRange (Selection 1 6 1 6))) =
              Some (IFoundBracket (Range 1 5 1 6) False)"
    by code_simp
  have e2: "equals (getEndPosition (rangeOf (IFoundBracket (Range 1 5 1 6) False)))
              (getStartPosition (asRange (Selection 1 6 1 6)))"
    by code_simp
  have m2: "matchBracket docAbc (getStartPosition (rangeOf (IFoundBracket (Range 1 5 1 6) False))) =
              Some (rangeOf (IFoundBracket (Range 1 5 1 6) False), Range 1 1 1 2)"
    by code_simp
  have o2: "if isOpen (IFoundBracket (Range 1 5 1 6) False)
            then isBeforeOrEqual (getStartPosition (rangeOf (IFoundBracket (Range 1 5 1 6) False)))
                   (getEndPosition (Range 1 1 1 2))
            else isBeforeOrEqual (getStartPosition (Range 1 1 1 2))
                   (getEndPosition (rangeOf (IFoundBracket (Range 1 5 1 6) False)))"
    by code_simp
  note t1 = neighbor_bracket_selects [OF p1 e1 m1 o1]
  note t2 = neighbor_bracket_selects [OF p2 e2 m2 o2]
  from t1 have a1: "expandSelection docAbc (Selection 1 2 1 2) =
      Some (if isOpen (IFoundBracket (Range 1 1 1 2) True)
            then outerSpan (rangeOf (IFoundBracket (Range 1 1 1 2) True), Range 1 5 1 6)
            else innerSpan (rangeOf (IFoundBracket (Range 1 1 1 2) True), Range 1 5 1 6))"
    by (rule conjunct1)
  from t1 have b1: "asRange (the (expandSelection docAbc (Selection 1 2 1 2))) =
      (if isOpen (IFoundBracket (Range 1 1 1 2) True)
       then fullSpan (rangeOf (IFoundBracket (Range 1 1 1 2) True)) (Range 1 5 1 6)
       else fullSpan (Range 1 5 1 6) (rangeOf (IFoundBracket (Range 1 1 1 2) True)))"
    by blast
  from t2 have a2: "expandSelection docAbc (Selection 1 6 1 6) =
      Some (if isOpen (IFoundBracket (Range 1 5 1 6) False)
            then outerSpan (rangeOf (IFoundBracket (Range 1 5 1 6) False), Range 1 1 1 2)
            else innerSpan (rangeOf (IFoundBracket (Range 1 5 1 6) False), Range 1 1 1 2))"
    by (rule conjunct1)
  from t2 have b2: "asRange (the (expandSelection docAbc (Selection 1 6 1 6))) =
      (if isOpen (IFoundBracket (Range 1 5 1 6) False)
       then fullSpan (rangeOf (IFoundBracket (Range 1 5 1 6) False)) (Range 1 1 1 2)
       else fullSpan (Range 1 1 1 2) (rangeOf (IFoundBracket (Range 1 5 1 6) False)))"
    by blast
  have "expandSelection docAbc (Selection 1 2 1 2) = Some (Selection 1 1 1 6)"
    unfolding a1 by (simp add: outerSpan_def)
  moreover have "asRange (the (expandSelection docAbc (Selection 1 2 1 2))) = Range 1 1 1 6"
    unfolding b1 by (simp add: fullSpan_def)
  moreover have "expandSelection docAbc (Selection 1 6 1 6) = Some (Selection 1 6 1 1)"
    unfolding a2 by (simp add: innerSpan_def)
  moreover have "asRange (the (expandSelection docAbc (Selection 1 6 1 6))) = Range 1 1 1 6"
    unfolding b2 by (simp add: fullSpan_def)
  ultimately show ?thesis by blast
qed

text \<open>
  Claim C6 as stated gives the interior of the pair when the neighbour bracket is a closing
  one. In \<open>(abc)\<close> with the caret right after \<open>)\<close> that bracket ends at the caret
  and is matched, and the expansion is the full span in swapped orientation, columns 6
  back to 1, not the interior.
\<close>

theorem caret_after_closing_bracket:
  "findPrevBracket docAbc (getStartPosition (asRange (Selection 1 6 1 6))) =
     Some (IFoundBracket (Range 1 5 1 6) False) \<and>
   equals (getEndPosition (Range 1 5 1 6)) (getStartPosition (asRange (Selection 1 6 1 6))) \<and>
   matchBracket docAbc (getStartPosition (Range 1 5 1 6)) =
     Some (Range 1 5 1 6, Range 1 1 1 2) \<and>
   expandSelection docAbc (Selection 1 6 1 6) = Some (Selection 1 6 1 1) \<and>
   asRange (Selection 1 6 1 1) = fullSpan (Range 1 1 1 2) (Range 1 5 1 6) \<and>
   asRange (Selection 1 6 1 1) \<noteq> interior (Range 1 1 1 2) (Range 1 5 1 6)"
  by code_simp




subsection \<open>The selection directly inside a pair\<close>

text \<open>
  Claim C7, as amended. When the neighbour check returned nothing, \<open>matchBracket\<close>
  resolves at the selection's start and at its end, the first range of the pair found at
  the start equals the second range of the pair found at the end, and that range does not
  start at the selection's start, the expansion is the full outer span of the pair found at
  the start.
\<close>

theorem inside_pair_selects_outer:
  assumes "neighborBracket model sel = None"
      and "matchBracket model (getStartPosition (asRange sel)) = Some matchPrev"
      and "matchBracket model (getEndPosition (asRange sel)) = Some matchNext"
      and "equalsRange (fst matchPrev) (snd matchNext)"
      and "\<not> equals (getStartPosition (fst matchPrev)) (getStartPosition (asRange sel))"
  shows "expandSelection model sel = Some (outerSpan matchPrev)"
  using assms by (simp add: expandSelection_def afterNeighborCheck_def insideOrCursor_def)

text \<open>The theorem at \<open>begin x end\<close>, for the selection from inside \<open>begin\<close> to \<open>end\<close>.\<close>

theorem inside_pair_selects_outer_witness:
  "expandSelection docBeginEnd (Selection 1 3 1 9) = Some (Selection 1 1 1 12)"
proof -
  have n: "neighborBracket docBeginEnd (Selection 1 3 1 9) = None" by code_simp
  have a: "matchBracket docBeginEnd (getStartPosition (asRange (Selection 1 3 1 9))) =
             Some (Range 1 1 1 6, Range 1 9 1 12)" by code_simp
  have b: "matchBracket docBeginEnd (getEndPosition (asRange (Selection 1 3 1 9))) =
             Some (Range 1 9 1 12, Range 1 1 1 6)" by code_simp
  have c: "equalsRange (fst (Range 1 1 1 6, Range 1 9 1 12)) (snd (Range 1 9 1 12, Range 1 1 1 6))"
    by code_simp
  have d: "\<not> equals (getStartPosition (fst (Range 1 1 1 6, Range 1 9 1 12)))
              (getStartPosition (asRange (Selection 1 3 1 9)))" by code_simp
  show ?thesis
    using inside_pair_selects_outer [OF n a b c d] by (simp add: outerSpan_def)
qed

text \<open>
  Claim C7 as stated fails in \<open>(abc)\<close> when the closing bracket is selected:
  \<open>matchBracket\<close> resolves at both ends of the selection to the same pair, hence to the
  same closing range, the selection does not start at the interior's start, and the
  expansion is the interior, not the full span.
\<close>

theorem closing_bracket_selected:
  "neighborBracket docAbc (Selection 1 5 1 6) = None \<and>
   matchBracket docAbc (getStartPosition (asRange (Selection 1 5 1 6))) =
     Some (Range 1 5 1 6, Range 1 1 1 2) \<and>
   matchBracket docAbc (getEndPosition (asRange (Selection 1 5 1 6))) =
     Some (Range 1 5 1 6, Range 1 1 1 2) \<and>
   expandSelection docAbc (Selection 1 5 1 6) = Some (Selection 1 2 1 5)"
  by code_simp

subsection \<open>The balanced outward scans\<close>

text \<open>
  A left scan that stops at a bracket stops at an opening one, and a right scan at a
  closing one: only they make the count negative.
\<close>

lemma scanPrev_stops_at_opening_aux:
  assumes "scanPrev model p c = Some r"
  shows "0 \<le> c \<longrightarrow> (\<forall>b. r = Some b \<longrightarrow> isOpen b)"
proof (rule scanPrev.raw_induct [OF _ assms])
  fix scan :: "Model \<Rightarrow> Position \<Rightarrow> int \<Rightarrow> IFoundBracket option option"
    and model p c r
  assume ih: "\<And>model p c r. scan model p c = Some r \<Longrightarrow>
                 0 \<le> c \<longrightarrow> (\<forall>b. r = Some b \<longrightarrow> isOpen b)"
    and eq: "(case findPrevBracket model p of
                None \<Rightarrow> Some None
              | Some b \<Rightarrow>
                  if 0 \<le> (if \<not> isOpen b then c + 1 else c - 1)
                  then scan model (getStartPosition (rangeOf b))
                         (if \<not> isOpen b then c + 1 else c - 1)
                  else Some (Some b)) = Some r"
  note 1 = ih eq
  show "0 \<le> c \<longrightarrow> (\<forall>b. r = Some b \<longrightarrow> isOpen b)"
  proof (cases "findPrevBracket model p")
    case None
    with 1(2) show ?thesis by simp
  next
    case (Some pb)
    show ?thesis
    proof (cases "isOpen pb")
      case True
      show ?thesis
      proof (cases "0 \<le> c - 1")
        case pos: True
        with Some \<open>isOpen pb\<close> 1(2)
        have "scan model (getStartPosition (rangeOf pb)) (c - 1) = Some r" by simp
        from 1(1) [OF this] pos show ?thesis by simp
      next
        case False
        with Some \<open>isOpen pb\<close> 1(2) have "r = Some pb" by simp
        with \<open>isOpen pb\<close> show ?thesis by simp
      qed
    next
      case False
      show ?thesis
      proof (cases "0 \<le> c + 1")
        case pos: True
        with Some False 1(2)
        have "scan model (getStartPosition (rangeOf pb)) (c + 1) = Some r" by simp
        from 1(1) [OF this] pos show ?thesis by simp
      next
        case neg: False
        then show ?thesis by simp
      qed
    qed
  qed
qed

lemma scanPrev_stops_at_opening:
  "scanPrev model p 0 = Some (Some b) \<Longrightarrow> isOpen b"
  using scanPrev_stops_at_opening_aux [of model p 0 "Some b"] by simp

lemma scanNext_stops_at_closing_aux:
  assumes "scanNext model p c = Some r"
  shows "0 \<le> c \<longrightarrow> (\<forall>b. r = Some b \<longrightarrow> \<not> isOpen b)"
proof (rule scanNext.raw_induct [OF _ assms])
  fix scan :: "Model \<Rightarrow> Position \<Rightarrow> int \<Rightarrow> IFoundBracket option option"
    and model p c r
  assume ih: "\<And>model p c r. scan model p c = Some r \<Longrightarrow>
                 0 \<le> c \<longrightarrow> (\<forall>b. r = Some b \<longrightarrow> \<not> isOpen b)"
    and eq: "(case findNextBracket model p of
                None \<Rightarrow> Some None
              | Some b \<Rightarrow>
                  if 0 \<le> (if isOpen b then c + 1 else c - 1)
                  then scan model (getEndPosition (rangeOf b))
                         (if isOpen b then c + 1 else c - 1)
                  else Some (Some b)) = Some r"
  note 1 = ih eq
  show "0 \<le> c \<longrightarrow> (\<forall>b. r = Some b \<longrightarrow> \<not> isOpen b)"
  proof (cases "findNextBracket model p")
    case None
    with 1(2) show ?thesis by simp
  next
    case (Some nb)
    show ?thesis
    proof (cases "isOpen nb")
      case False
      show ?thesis
      proof (cases "0 \<le> c - 1")
        case pos: True
        with Some \<open>\<not> isOpen nb\<close> 1(2)
        have "scan model (getEndPosition (rangeOf nb)) (c - 1) = Some r" by simp
        from 1(1) [OF this] pos show ?thesis by simp
      next
        case neg: False
        with Some \<open>\<not> isOpen nb\<close> 1(2) have "r = Some nb" by simp
        with \<open>\<not> isOpen nb\<close> show ?thesis by simp
      qed
    next
      case True
      show ?thesis
      proof (cases "0 \<le> c + 1")
        case pos: True
        with Some True 1(2)
        have "scan model (getEndPosition (rangeOf nb)) (c + 1) = Some r" by simp
        from 1(1) [OF this] pos show ?thesis by simp
      next
        case neg: False
        then show ?thesis by simp
      qed
    qed
  qed
qed

lemma scanNext_stops_at_closing:
  "scanNext model p 0 = Some (Some b) \<Longrightarrow> \<not> isOpen b"
  using scanNext_stops_at_closing_aux [of model p 0 "Some b"] by simp

text \<open>
  Claim C1, as amended. When both scans stop at a bracket and \<open>matchBracket\<close> answers at
  the start of each with its range and the range of its partner, the end position of the
  left bracket's partner is compared with the end position of the right bracket. If the
  former is before the latter the right bracket's pair is taken, otherwise, so also when
  both positions are equal, the left bracket's pair; and the expansion is the interior of
  the pair taken, without the bracket characters, whichever side it came from: from the
  opening bracket's end to the closing bracket's start for the left pair, and from the
  closing bracket's start back to the opening bracket's end for the right pair.
\<close>

theorem both_candidates_pick:
  assumes "neighborBracket model sel = None"
      and "insideOrCursor model sel = None"
      and "scanPrev model (getStartPosition (asRange sel)) 0 = Some (Some prevBracket)"
      and "scanNext model (getEndPosition (asRange sel)) 0 = Some (Some nextBracket)"
      and "matchBracket model (getStartPosition (rangeOf prevBracket)) =
             Some (rangeOf prevBracket, leftClosing)"
      and "matchBracket model (getStartPosition (rangeOf nextBracket)) =
             Some (rangeOf nextBracket, rightOpening)"
      and "isBeforeOrEqual (getEndPosition (rangeOf prevBracket)) (getStartPosition leftClosing)"
      and "isBeforeOrEqual (getEndPosition rightOpening) (getStartPosition (rangeOf nextBracket))"
  shows "isOpen prevBracket \<and> \<not> isOpen nextBracket \<and>
         expandSelection model sel =
           Some (if isBefore (getEndPosition leftClosing) (getEndPosition (rangeOf nextBracket))
                 then outerSpan (rangeOf nextBracket, rightOpening)
                 else innerSpan (rangeOf prevBracket, leftClosing)) \<and>
         asRange (the (expandSelection model sel)) =
           (if isBefore (getEndPosition leftClosing) (getEndPosition (rangeOf nextBracket))
            then interior rightOpening (rangeOf nextBracket)
            else interior (rangeOf prevBracket) leftClosing)"
proof -
  have o: "isOpen prevBracket" using assms(3) by (rule scanPrev_stops_at_opening)
  have c: "\<not> isOpen nextBracket" using assms(4) by (rule scanNext_stops_at_closing)
  have r: "expandSelection model sel =
           Some (if isBefore (getEndPosition leftClosing) (getEndPosition (rangeOf nextBracket))
                 then outerSpan (rangeOf nextBracket, rightOpening)
                 else innerSpan (rangeOf prevBracket, leftClosing))"
    using assms(1-6)
    by (simp add: expandSelection_def afterNeighborCheck_def balancedScan_def pickOutermost_def)
  have s: "asRange (the (expandSelection model sel)) =
           (if isBefore (getEndPosition leftClosing) (getEndPosition (rangeOf nextBracket))
            then interior rightOpening (rangeOf nextBracket)
            else interior (rangeOf prevBracket) leftClosing)"
    using assms(7,8) by (simp add: r asRange_innerSpan asRange_outerSpan_reversed)
  from o c r s show ?thesis by blast
qed

text \<open>
  The theorem at \<open>[ { ] ( } x )\<close>, where the right pair is taken, and at \<open>(abc)\<close>,
  where the left pair is taken; the selection is one letter.
\<close>

theorem both_candidates_pick_witness:
  "expandSelection docCrossed (Selection 1 11 1 12) = Some (Selection 1 13 1 8) \<and>
   asRange (the (expandSelection docCrossed (Selection 1 11 1 12))) = Range 1 8 1 13 \<and>
   expandSelection docAbc (Selection 1 3 1 4) = Some (Selection 1 2 1 5) \<and>
   asRange (the (expandSelection docAbc (Selection 1 3 1 4))) = Range 1 2 1 5"
proof -
  have n1: "neighborBracket docCrossed (Selection 1 11 1 12) = None" by code_simp
  have i1: "insideOrCursor docCrossed (Selection 1 11 1 12) = None" by code_simp
  have p1: "scanPrev docCrossed (getStartPosition (asRange (Selection 1 11 1 12))) 0 =
              Some (Some (IFoundBracket (Range 1 1 1 2) True))" by code_simp
  have s1: "scanNext docCrossed (getEndPosition (asRange (Selection 1 11 1 12))) 0 =
              Some (Some (IFoundBracket (Range 1 13 1 14) False))" by code_simp
  have a1: "matchBracket docCrossed (getStartPosition (rangeOf (IFoundBracket (Range 1 1 1 2) True))) =
              Some (rangeOf (IFoundBracket (Range 1 1 1 2) True), Range 1 5 1 6)" by code_simp
  have b1: "matchBracket docCrossed
              (getStartPosition (rangeOf (IFoundBracket (Range 1 13 1 14) False))) =
              Some (rangeOf (IFoundBracket (Range 1 13 1 14) False), Range 1 7 1 8)" by code_simp
  have l1: "isBeforeOrEqual (getEndPosition (rangeOf (IFoundBracket (Range 1 1 1 2) True)))
              (getStartPosition (Range 1 5 1 6))" by code_simp
  have r1: "isBeforeOrEqual (getEndPosition (Range 1 7 1 8))
              (getStartPosition (rangeOf (IFoundBracket (Range 1 13 1 14) False)))" by code_simp
  have n2: "neighborBracket docAbc (Selection 1 3 1 4) = None" by code_simp
  have i2: "insideOrCursor docAbc (Selection 1 3 1 4) = None" by code_simp
  have p2: "scanPrev docAbc (getStartPosition (asRange (Selection 1 3 1 4))) 0 =
              Some (Some (IFoundBracket (Range 1 1 1 2) True))" by code_simp
  have s2: "scanNext docAbc (getEndPosition (asRange (Selection 1 3 1 4))) 0 =
              Some (Some (IFoundBracket (Range 1 5 1 6) False))" by code_simp
  have a2: "matchBracket docAbc (getStartPosition (rangeOf (IFoundBracket (Range 1 1 1 2) True))) =
              Some (rangeOf (IFoundBracket (Range 1 1 1 2) True), Range 1 5 1 6)" by code_simp
  have b2: "matchBracket docAbc (getStartPosition (rangeOf (IFoundBracket (Range 1 5 1 6) False))) =
              Some (rangeOf (IFoundBracket (Range 1 5 1 6) False), Range 1 1 1 2)" by code_simp
  have l2: "isBeforeOrEqual (getEndPosition (rangeOf (IFoundBracket (Range 1 1 1 2) True)))
              (getStartPosition (Range 1 5 1 6))" by code_simp
  have r2: "isBeforeOrEqual (getEndPosition (Range 1 1 1 2))
              (getStartPosition (rangeOf (IFoundBracket (Range 1 5 1 6) False)))" by code_simp
  note t1 = both_candidates_pick [OF n1 i1 p1 s1 a1 b1 l1 r1]
  note t2 = both_candidates_pick [OF n2 i2 p2 s2 a2 b2 l2 r2]
  have c1: "isBefore (getEndPosition (Range 1 5 1 6))
              (getEndPosition (rangeOf (IFoundBracket (Range 1 13 1 14) False)))" by code_simp
  have c2: "\<not> isBefore (getEndPosition (Range 1 5 1 6))
              (getEndPosition (rangeOf (IFoundBracket (Range 1 5 1 6) False)))" by code_simp
  from t1 have e1: "expandSelection docCrossed (Selection 1 11 1 12) =
      Some (if isBefore (getEndPosition (Range 1 5 1 6))
                 (getEndPosition (rangeOf (IFoundBracket (Range 1 13 1 14) False)))
            then outerSpan (rangeOf (IFoundBracket (Range 1 13 1 14) False), Range 1 7 1 8)
            else innerSpan (rangeOf (IFoundBracket (Range 1 1 1 2) True), Range 1 5 1 6))"
    by blast
  from t1 have f1: "asRange (the (expandSelection docCrossed (Selection 1 11 1 12))) =
      (if isBefore (getEndPosition (Range 1 5 1 6))
            (getEndPosition (rangeOf (IFoundBracket (Range 1 13 1 14) False)))
       then interior (Range 1 7 1 8) (rangeOf (IFoundBracket (Range 1 13 1 14) False))
       else interior (rangeOf (IFoundBracket (Range 1 1 1 2) True)) (Range 1 5 1 6))"
    by blast
  from t2 have e2: "expandSelection docAbc (Selection 1 3 1 4) =
      Some (if isBefore (getEndPosition (Range 1 5 1 6))
                 (getEndPosition (rangeOf (IFoundBracket (Range 1 5 1 6) False)))
            then outerSpan (rangeOf (IFoundBracket (Range 1 5 1 6) False), Range 1 1 1 2)
            else innerSpan (rangeOf (IFoundBracket (Range 1 1 1 2) True), Range 1 5 1 6))"
    by blast
  from t2 have f2: "asRange (the (expandSelection docAbc (Selection 1 3 1 4))) =
      (if isBefore (getEndPosition (Range 1 5 1 6))
            (getEndPosition (rangeOf (IFoundBracket (Range 1 5 1 6) False)))
       then interior (Range 1 1 1 2) (rangeOf (IFoundBracket (Range 1 5 1 6) False))
       else interior (rangeOf (IFoundBracket (Range 1 1 1 2) True)) (Range 1 5 1 6))"
    by blast
  have x1: "expandSelection docCrossed (Selection 1 11 1 12) = Some (Selection 1 13 1 8)"
    unfolding e1 using c1 by (simp add: outerSpan_def)
  have y1: "asRange (the (expandSelection docCrossed (Selection 1 11 1 12))) = Range 1 8 1 13"
    unfolding f1 using c1 by (simp add: interior_def)
  have x2: "expandSelection docAbc (Selection 1 3 1 4) = Some (Selection 1 2 1 5)"
    unfolding e2 using c2 by (simp add: innerSpan_def)
  have y2: "asRange (the (expandSelection docAbc (Selection 1 3 1 4))) = Range 1 2 1 5"
    unfolding f2 using c2 by (simp add: interior_def)
  from x1 y1 x2 y2 show ?thesis by blast
qed

text \<open>
  Claim C1 as stated compares the end position of the left candidate's match with the
  start position of the right candidate's match, the far boundary of either pair, and
  takes the right pair only when the former is before the latter. In \<open>( [ x { ] )\<close>
  the left candidate's match, the square closing bracket, ends in column 10 and the right
  candidate's match, the round opening bracket, starts in column 1 and ends in column 2:
  by that comparison the square pair would be taken. The code compares with the end of the
  right candidate itself, column 12, and takes the round pair: the expansion is the
  interior of the round pair, not that of the square pair.
\<close>

theorem nested_pairs_pick_right:
  "scanPrev docSkew (getStartPosition (asRange (Selection 1 5 1 6))) 0 =
     Some (Some (IFoundBracket (Range 1 3 1 4) True)) \<and>
   scanNext docSkew (getEndPosition (asRange (Selection 1 5 1 6))) 0 =
     Some (Some (IFoundBracket (Range 1 11 1 12) False)) \<and>
   matchBracket docSkew (getStartPosition (Range 1 3 1 4)) =
     Some (Range 1 3 1 4, Range 1 9 1 10) \<and>
   matchBracket docSkew (getStartPosition (Range 1 11 1 12)) =
     Some (Range 1 11 1 12, Range 1 1 1 2) \<and>
   \<not> isBefore (getEndPosition (Range 1 9 1 10)) (getStartPosition (Range 1 1 1 2)) \<and>
   \<not> isBefore (getEndPosition (Range 1 9 1 10)) (getEndPosition (Range 1 1 1 2)) \<and>
   isBefore (getEndPosition (Range 1 9 1 10)) (getEndPosition (Range 1 11 1 12)) \<and>
   expandSelection docSkew (Selection 1 5 1 6) = Some (Selection 1 11 1 2) \<and>
   asRange (Selection 1 11 1 2) = interior (Range 1 1 1 2) (Range 1 11 1 12) \<and>
   asRange (Selection 1 11 1 2) \<noteq> interior (Range 1 3 1 4) (Range 1 9 1 10)"
  by code_simp

text \<open>
  Claim C3, as amended. When exactly one scan stops at a bracket and \<open>matchBracket\<close>
  answers at its start with its range and the range of its partner, the expansion is the
  interior of that pair, whichever scan found the bracket: from the opening bracket's end
  to the closing bracket's start if the left scan found it, and from the closing bracket's
  start back to the opening bracket's end if the right scan found it.
\<close>

theorem one_candidate_pick:
  assumes "neighborBracket model sel = None"
      and "insideOrCursor model sel = None"
      and "scanPrev model (getStartPosition (asRange sel)) 0 = Some prevBracket"
      and "scanNext model (getEndPosition (asRange sel)) 0 = Some nextBracket"
  shows "(\<forall>b partner. prevBracket = Some b \<and> nextBracket = None \<and>
            matchBracket model (getStartPosition (rangeOf b)) = Some (rangeOf b, partner) \<and>
            isBeforeOrEqual (getEndPosition (rangeOf b)) (getStartPosition partner) \<longrightarrow>
            isOpen b \<and>
            expandSelection model sel = Some (innerSpan (rangeOf b, partner)) \<and>
            asRange (the (expandSelection model sel)) = interior (rangeOf b) partner) \<and>
         (\<forall>b partner. prevBracket = None \<and> nextBracket = Some b \<and>
            matchBracket model (getStartPosition (rangeOf b)) = Some (rangeOf b, partner) \<and>
            isBeforeOrEqual (getEndPosition partner) (getStartPosition (rangeOf b)) \<longrightarrow>
            \<not> isOpen b \<and>
            expandSelection model sel = Some (outerSpan (rangeOf b, partner)) \<and>
            asRange (the (expandSelection model sel)) = interior partner (rangeOf b))"
proof -
  have left: "isOpen b \<and>
            expandSelection model sel = Some (innerSpan (rangeOf b, partner)) \<and>
            asRange (the (expandSelection model sel)) = interior (rangeOf b) partner"
    if "prevBracket = Some b" "nextBracket = None"
       "matchBracket model (getStartPosition (rangeOf b)) = Some (rangeOf b, partner)"
       "isBeforeOrEqual (getEndPosition (rangeOf b)) (getStartPosition partner)" for b partner
  proof -
    have "isOpen b"
      using scanPrev_stops_at_opening [of model "getStartPosition (asRange sel)" b] assms(3) that(1)
      by simp
    moreover have r: "expandSelection model sel = Some (innerSpan (rangeOf b, partner))"
      using assms that(1-3)
      by (simp add: expandSelection_def afterNeighborCheck_def balancedScan_def pickOutermost_def)
    moreover have "asRange (the (expandSelection model sel)) = interior (rangeOf b) partner"
      using that(4) by (simp add: r asRange_innerSpan)
    ultimately show ?thesis by blast
  qed
  have right: "\<not> isOpen b \<and>
            expandSelection model sel = Some (outerSpan (rangeOf b, partner)) \<and>
            asRange (the (expandSelection model sel)) = interior partner (rangeOf b)"
    if "prevBracket = None" "nextBracket = Some b"
       "matchBracket model (getStartPosition (rangeOf b)) = Some (rangeOf b, partner)"
       "isBeforeOrEqual (getEndPosition partner) (getStartPosition (rangeOf b))" for b partner
  proof -
    have "\<not> isOpen b"
      using scanNext_stops_at_closing [of model "getEndPosition (asRange sel)" b] assms(4) that(2)
      by simp
    moreover have r: "expandSelection model sel = Some (outerSpan (rangeOf b, partner))"
      using assms that(1-3)
      by (simp add: expandSelection_def afterNeighborCheck_def balancedScan_def pickOutermost_def)
    moreover have "asRange (the (expandSelection model sel)) = interior partner (rangeOf b)"
      using that(4) by (simp add: r asRange_outerSpan_reversed)
    ultimately show ?thesis by blast
  qed
  from left right show ?thesis by blast
qed

text \<open>
  The theorem at \<open>( x [ )\<close>, where only the left scan finds a bracket, and at
  \<open>( ] x )\<close>, where only the right scan does.
\<close>

theorem one_candidate_pick_witness:
  "expandSelection docOpenRight (Selection 1 3 1 4) = Some (Selection 1 2 1 7) \<and>
   asRange (the (expandSelection docOpenRight (Selection 1 3 1 4))) = Range 1 2 1 7 \<and>
   expandSelection docCloseLeft (Selection 1 5 1 6) = Some (Selection 1 7 1 2) \<and>
   asRange (the (expandSelection docCloseLeft (Selection 1 5 1 6))) = Range 1 2 1 7"
proof -
  have n1: "neighborBracket docOpenRight (Selection 1 3 1 4) = None" by code_simp
  have i1: "insideOrCursor docOpenRight (Selection 1 3 1 4) = None" by code_simp
  have p1: "scanPrev docOpenRight (getStartPosition (asRange (Selection 1 3 1 4))) 0 =
              Some (Some (IFoundBracket (Range 1 1 1 2) True))" by code_simp
  have s1: "scanNext docOpenRight (getEndPosition (asRange (Selection 1 3 1 4))) 0 = Some None"
    by code_simp
  have m1: "matchBracket docOpenRight
              (getStartPosition (rangeOf (IFoundBracket (Range 1 1 1 2) True))) =
              Some (rangeOf (IFoundBracket (Range 1 1 1 2) True), Range 1 7 1 8)" by code_simp
  have o1: "isBeforeOrEqual (getEndPosition (rangeOf (IFoundBracket (Range 1 1 1 2) True)))
              (getStartPosition (Range 1 7 1 8))" by code_simp
  have n2: "neighborBracket docCloseLeft (Selection 1 5 1 6) = None" by code_simp
  have i2: "insideOrCursor docCloseLeft (Selection 1 5 1 6) = None" by code_simp
  have p2: "scanPrev docCloseLeft (getStartPosition (asRange (Selection 1 5 1 6))) 0 = Some None"
    by code_simp
  have s2: "scanNext docCloseLeft (getEndPosition (asRange (Selection 1 5 1 6))) 0 =
              Some (Some (IFoundBracket (Range 1 7 1 8) False))" by code_simp
  have m2: "matchBracket docCloseLeft
              (getStartPosition (rangeOf (IFoundBracket (Range 1 7 1 8) False))) =
              Some (rangeOf (IFoundBracket (Range 1 7 1 8) False), Range 1 1 1 2)" by code_simp
  have o2: "isBeforeOrEqual (getEndPosition (Range 1 1 1 2))
              (getStartPosition (rangeOf (IFoundBracket (Range 1 7 1 8) False)))" by code_simp
  from one_candidate_pick [OF n1 i1 p1 s1] m1 o1
  have t1: "expandSelection docOpenRight (Selection 1 3 1 4) =
              Some (innerSpan (rangeOf (IFoundBracket (Range 1 1 1 2) True), Range 1 7 1 8)) \<and>
            asRange (the (expandSelection docOpenRight (Selection 1 3 1 4))) =
              interior (rangeOf (IFoundBracket (Range 1 1 1 2) True)) (Range 1 7 1 8)"
    by blast
  from one_candidate_pick [OF n2 i2 p2 s2] m2 o2
  have t2: "expandSelection docCloseLeft (Selection 1 5 1 6) =
              Some (outerSpan (rangeOf (IFoundBracket (Range 1 7 1 8) False), Range 1 1 1 2)) \<and>
            asRange (the (expandSelection docCloseLeft (Selection 1 5 1 6))) =
              interior (Range 1 1 1 2) (rangeOf (IFoundBracket (Range 1 7 1 8) False))"
    by blast
  from t1 have x1: "expandSelection docOpenRight (Selection 1 3 1 4) = Some (Selection 1 2 1 7)"
    by (simp add: innerSpan_def)
  from t1 have "asRange (the (expandSelection docOpenRight (Selection 1 3 1 4))) =
              interior (rangeOf (IFoundBracket (Range 1 1 1 2) True)) (Range 1 7 1 8)"
    by (rule conjunct2)
  then have y1: "asRange (the (expandSelection docOpenRight (Selection 1 3 1 4))) = Range 1 2 1 7"
    by (simp add: interior_def)
  from t2 have x2: "expandSelection docCloseLeft (Selection 1 5 1 6) = Some (Selection 1 7 1 2)"
    by (simp add: outerSpan_def)
  from t2 have "asRange (the (expandSelection docCloseLeft (Selection 1 5 1 6))) =
              interior (Range 1 1 1 2) (rangeOf (IFoundBracket (Range 1 7 1 8) False))"
    by (rule conjunct2)
  then have y2: "asRange (the (expandSelection docCloseLeft (Selection 1 5 1 6))) = Range 1 2 1 7"
    by (simp add: interior_def)
  from x1 y1 x2 y2 show ?thesis by blast
qed

text \<open>
  Claim C3 as stated gives the full outer span whichever scan found the bracket. In
  \<open>( x [ )\<close> only the left scan finds a bracket, in \<open>( ] x )\<close> only the right
  scan; the bracket is matched, and the expansion is the interior of its pair, not the full
  span.
\<close>

theorem single_candidate_selects_interior:
  "scanPrev docOpenRight (getStartPosition (asRange (Selection 1 3 1 4))) 0 =
     Some (Some (IFoundBracket (Range 1 1 1 2) True)) \<and>
   scanNext docOpenRight (getEndPosition (asRange (Selection 1 3 1 4))) 0 = Some None \<and>
   matchBracket docOpenRight (getStartPosition (Range 1 1 1 2)) =
     Some (Range 1 1 1 2, Range 1 7 1 8) \<and>
   expandSelection docOpenRight (Selection 1 3 1 4) = Some (Selection 1 2 1 7) \<and>
   asRange (Selection 1 2 1 7) = interior (Range 1 1 1 2) (Range 1 7 1 8) \<and>
   asRange (Selection 1 2 1 7) \<noteq> fullSpan (Range 1 1 1 2) (Range 1 7 1 8) \<and>
   scanPrev docCloseLeft (getStartPosition (asRange (Selection 1 5 1 6))) 0 = Some None \<and>
   scanNext docCloseLeft (getEndPosition (asRange (Selection 1 5 1 6))) 0 =
     Some (Some (IFoundBracket (Range 1 7 1 8) False)) \<and>
   matchBracket docCloseLeft (getStartPosition (Range 1 7 1 8)) =
     Some (Range 1 7 1 8, Range 1 1 1 2) \<and>
   expandSelection docCloseLeft (Selection 1 5 1 6) = Some (Selection 1 7 1 2) \<and>
   asRange (Selection 1 7 1 2) = interior (Range 1 1 1 2) (Range 1 7 1 8) \<and>
   asRange (Selection 1 7 1 2) \<noteq> fullSpan (Range 1 1 1 2) (Range 1 7 1 8)"
  by code_simp

subsection \<open>Termination of the scans\<close>

lemma wf_isBefore: "wf {(a, b). isBefore a b}"
proof -
  have "{(a, b). isBefore a b} =
          inv_image (less_than <*lex*> less_than) (\<lambda>p. (lineNumber p, column p))"
    by (auto simp: isBefore_def inv_image_def split: if_splits)
  moreover have "wf (inv_image (less_than <*lex*> less_than) (\<lambda>p. (lineNumber p, column p)))"
    by (intro wf_inv_image wf_lex_prod wf_less_than)
  ultimately show ?thesis by simp
qed

lemma isBefore_trans: "isBefore a b \<Longrightarrow> isBefore b c \<Longrightarrow> isBefore a c"
  by (auto simp: isBefore_def split: if_splits)

lemma isBefore_irrefl: "\<not> isBefore a a"
  by (simp add: isBefore_def)

lemma scanPrev_returns:
  assumes progress: "\<forall>p b. findPrevBracket model p = Some b \<longrightarrow>
                       isBefore (getStartPosition (rangeOf b)) p"
  shows "\<exists>r. scanPrev model p c = Some r"
proof (induction p arbitrary: c rule: wf_induct_rule [OF wf_isBefore])
  case (1 p)
  show ?case
  proof (cases "findPrevBracket model p")
    case None
    then show ?thesis by (subst scanPrev.simps) simp
  next
    case (Some b)
    with progress have "isBefore (getStartPosition (rangeOf b)) p" by blast
    then have "\<exists>r. scanPrev model (getStartPosition (rangeOf b)) c' = Some r" for c'
      using "1.IH" by simp
    with Some show ?thesis by (subst scanPrev.simps) simp
  qed
qed

lemma filter_length_less:
  assumes "\<And>x. P x \<Longrightarrow> Q x" and "y \<in> set xs" and "Q y" and "\<not> P y"
  shows "length (filter P xs) < length (filter Q xs)"
  using assms
proof (induction xs)
  case Nil
  then show ?case by simp
next
  case (Cons x xs)
  have le: "length (filter P xs) \<le> length (filter Q xs)"
    using Cons.prems(1) by (induction xs) auto
  show ?case
  proof (cases "x = y")
    case True
    with Cons.prems le show ?thesis by simp
  next
    case False
    with Cons have "length (filter P xs) < length (filter Q xs)" by simp
    with Cons.prems(1) show ?thesis by auto
  qed
qed

lemma scanNext_returns:
  assumes progress: "\<forall>p b. findNextBracket model p = Some b \<longrightarrow>
                       isBefore p (getEndPosition (rangeOf b))"
      and finite: "\<forall>p b. findNextBracket model p = Some b \<longrightarrow> b \<in> set tokens"
  shows "\<exists>r. scanNext model p c = Some r"
proof (induction "length (filter (\<lambda>t. isBefore p (getEndPosition (rangeOf t))) tokens)"
         arbitrary: p c rule: less_induct)
  case less
  show ?case
  proof (cases "findNextBracket model p")
    case None
    then show ?thesis by (subst scanNext.simps) simp
  next
    case (Some b)
    with progress finite have b: "isBefore p (getEndPosition (rangeOf b))" "b \<in> set tokens"
      by blast+
    have "length (filter (\<lambda>t. isBefore (getEndPosition (rangeOf b)) (getEndPosition (rangeOf t))) tokens)
            < length (filter (\<lambda>t. isBefore p (getEndPosition (rangeOf t))) tokens)"
      by (rule filter_length_less [where y = b])
         (use b in \<open>auto intro: isBefore_trans simp: isBefore_irrefl\<close>)
    then have "\<exists>r. scanNext model (getEndPosition (rangeOf b)) c' = Some r" for c'
      using less by simp
    with Some show ?thesis by (subst scanNext.simps) simp
  qed
qed

text \<open>
  Claim C9. A document holds finitely many bracket tokens, \<open>tokens\<close>. If every answer
  of \<open>findPrevBracket\<close> starts strictly before the position asked for, and every answer
  of \<open>findNextBracket\<close> is one of the document's tokens and ends strictly after the
  position asked for, then both scans return from every position and every count, and the
  expansion of every selection returns.
\<close>

theorem scans_terminate:
  assumes "\<forall>p b. findPrevBracket model p = Some b \<longrightarrow>
             isBefore (getStartPosition (rangeOf b)) p"
      and "\<forall>p b. findNextBracket model p = Some b \<longrightarrow>
             isBefore p (getEndPosition (rangeOf b))"
      and "\<forall>p b. findNextBracket model p = Some b \<longrightarrow> b \<in> set tokens"
  shows "(\<exists>r. scanPrev model p c = Some r) \<and> (\<exists>r. scanNext model q d = Some r) \<and>
         (\<exists>s. expandSelection model sel = Some s)"
proof -
  have prev: "\<exists>r. scanPrev model p c = Some r" for p c
    using assms(1) by (rule scanPrev_returns)
  have nxt: "\<exists>r. scanNext model q d = Some r" for q d
    using assms(2,3) by (rule scanNext_returns)
  obtain r1 where r1: "scanPrev model (getStartPosition (asRange sel)) 0 = Some r1"
    using prev by blast
  obtain r2 where r2: "scanNext model (getEndPosition (asRange sel)) 0 = Some r2"
    using nxt by blast
  have "\<exists>s. expandSelection model sel = Some s"
    using r1 r2
    by (simp add: expandSelection_def afterNeighborCheck_def balancedScan_def
             split: option.splits)
  with prev nxt show ?thesis by blast
qed

lemma lineModel_prev_progress:
  "findPrevBracket (lineModel ts) p = Some b \<Longrightarrow> isBefore (getStartPosition (rangeOf b)) p"
proof -
  assume a: "findPrevBracket (lineModel ts) p = Some b"
  let ?P = "\<lambda>t. isBeforeOrEqual (getEndPosition (tokenRange (tokenColumn t))) p"
  from a have ne: "filter ?P ts \<noteq> []" and b: "b = asFound (last (filter ?P ts))"
    by (auto simp: lineModel_def split: list.splits)
  from ne have "last (filter ?P ts) \<in> set (filter ?P ts)" by (rule last_in_set)
  then have "?P (last (filter ?P ts))" by simp
  then show ?thesis
    by (simp add: b asFound_def tokenRange_def getStartPosition_def getEndPosition_def
          isBefore_def isBeforeOrEqual_def split: if_splits)
qed

lemma lineModel_next_progress:
  "findNextBracket (lineModel ts) p = Some b \<Longrightarrow>
     isBefore p (getEndPosition (rangeOf b)) \<and> b \<in> set (map asFound ts)"
proof -
  assume a: "findNextBracket (lineModel ts) p = Some b"
  let ?P = "\<lambda>t. isBeforeOrEqual p (getStartPosition (tokenRange (tokenColumn t)))"
  from a obtain t rest where f: "filter ?P ts = t # rest" and b: "b = asFound t"
    by (auto simp: lineModel_def split: list.splits)
  have "t \<in> set (filter ?P ts)" by (simp add: f)
  then have "?P t" "t \<in> set ts" by simp_all
  then show ?thesis
    by (simp add: b asFound_def tokenRange_def getStartPosition_def getEndPosition_def
          isBefore_def isBeforeOrEqual_def split: if_splits)
qed

text \<open>The theorem at \<open>[ { ] ( } x )\<close>, whose text model meets the three conditions.\<close>

theorem scans_terminate_witness:
  "(\<exists>r. scanPrev docCrossed (Position 1 11) 0 = Some r) \<and>
   (\<exists>r. scanNext docCrossed (Position 1 12) 0 = Some r) \<and>
   (\<exists>s. expandSelection docCrossed (Selection 1 11 1 12) = Some s)"
  unfolding docCrossed_def
  by (rule scans_terminate [where tokens = "map asFound
        [Token 1 True (Some 5), Token 3 True (Some 9), Token 5 False (Some 1),
         Token 7 True (Some 13), Token 9 False (Some 3), Token 13 False (Some 7)]"])
     (blast dest: lineModel_prev_progress lineModel_next_progress)+

section \<open>Properties of the selection state machine\<close>

subsection \<open>The store after the chain is built\<close>

lemma linkStates_spec:
  assumes "\<forall>l. lastState = Some l \<longrightarrow> l < length h"
  shows "case linkStates e elements h lastState of (h', lastState') \<Rightarrow>
           length h' = length h + length elements \<and>
           lastState' = (if elements = [] then lastState
                         else Some (length h + length elements - 1)) \<and>
           (\<forall>i<length h. h' ! i =
              (if elements \<noteq> [] \<and> lastState = Some i
               then (h ! i)\<lparr>previous := Some (length h)\<rparr> else h ! i)) \<and>
           (\<forall>j<length elements. h' ! (length h + j) =
              \<lparr> editor = editorId e,
                next = (if j = 0 then lastState else Some (length h + j - 1)),
                previous = (if j + 1 < length elements then Some (length h + j + 1) else None),
                selection = entryAsRange (elements ! j) \<rparr>)"
  using assms
proof (induction elements arbitrary: h lastState)
  case Nil
  then show ?case by simp
next
  case (Cons el els)
  define st where "st = (newState e)\<lparr>selection := entryAsRange el\<rparr>"
  define h2 where "h2 = (case lastState of
      None \<Rightarrow> h @ [st]
    | Some l \<Rightarrow> (h @ [st\<lparr>next := Some l\<rparr>])[l := (h ! l)\<lparr>previous := Some (length h)\<rparr>])"
  have step: "linkStates e (el # els) h lastState = linkStates e els h2 (Some (length h))"
    by (simp add: st_def h2_def split: option.splits)
  have len2: "length h2 = Suc (length h)"
    by (simp add: h2_def split: option.splits)
  have old2: "h2 ! i = (if lastState = Some i then (h ! i)\<lparr>previous := Some (length h)\<rparr> else h ! i)"
    if "i < length h" for i
    using that Cons.prems by (auto simp: h2_def nth_append nth_list_update split: option.splits)
  have new2: "h2 ! length h = \<lparr> editor = editorId e, next = lastState, previous = None,
                                selection = entryAsRange el \<rparr>"
    using Cons.prems
    by (auto simp: h2_def st_def newState_def nth_append nth_list_update split: option.splits)
  obtain h' l' where res: "linkStates e els h2 (Some (length h)) = (h', l')"
    by (cases "linkStates e els h2 (Some (length h))")
  have ih: "length h' = length h2 + length els \<and>
           l' = (if els = [] then Some (length h) else Some (length h2 + length els - 1)) \<and>
           (\<forall>i<length h2. h' ! i =
              (if els \<noteq> [] \<and> Some (length h) = Some i
               then (h2 ! i)\<lparr>previous := Some (length h2)\<rparr> else h2 ! i)) \<and>
           (\<forall>j<length els. h' ! (length h2 + j) =
              \<lparr> editor = editorId e,
                next = (if j = 0 then Some (length h) else Some (length h2 + j - 1)),
                previous = (if j + 1 < length els then Some (length h2 + j + 1) else None),
                selection = entryAsRange (els ! j) \<rparr>)"
    using Cons.IH [of "Some (length h)" h2] res len2 by simp
  have a: "length h' = length h + length (el # els)"
    using ih len2 by simp
  have b: "l' = Some (length h + length (el # els) - 1)"
    using ih len2 by simp
  have c: "h' ! i = (if lastState = Some i then (h ! i)\<lparr>previous := Some (length h)\<rparr> else h ! i)"
    if "i < length h" for i
  proof -
    from that have "i < length h2" "i \<noteq> length h" using len2 by simp_all
    with ih have "h' ! i = h2 ! i" by simp
    with old2 [OF that] show ?thesis by simp
  qed
  have d: "h' ! (length h + j) =
              \<lparr> editor = editorId e,
                next = (if j = 0 then lastState else Some (length h + j - 1)),
                previous = (if j + 1 < length (el # els) then Some (length h + j + 1) else None),
                selection = entryAsRange ((el # els) ! j) \<rparr>"
    if "j < length (el # els)" for j
  proof (cases j)
    case 0
    have "length h < length h2" using len2 by simp
    with ih have "h' ! length h =
        (if els \<noteq> [] then (h2 ! length h)\<lparr>previous := Some (length h2)\<rparr> else h2 ! length h)"
      by simp
    with 0 new2 len2 show ?thesis by (cases els) simp_all
  next
    case (Suc j')
    with that have "j' < length els" by simp
    with ih have "h' ! (length h2 + j') =
              \<lparr> editor = editorId e,
                next = (if j' = 0 then Some (length h) else Some (length h2 + j' - 1)),
                previous = (if j' + 1 < length els then Some (length h2 + j' + 1) else None),
                selection = entryAsRange (els ! j') \<rparr>" by blast
    with Suc len2 show ?thesis by simp
  qed
  show ?case
    unfolding step res using a b c d by simp
qed

lemma buildChain_spec:
  fixes g :: Shared and e :: Editor and elements :: "ILogicalSelectionEntry list"
  defines "survivors \<equiv> filter (enclosesSelection e) elements"
  defines "n \<equiv> length (heap g)"
  defines "k \<equiv> length survivors"
  assumes ne: "elements \<noteq> []"
  shows "case buildChain g e elements of (g', e') \<Rightarrow>
           e' = e\<lparr>cursorListeners := cursorListeners e + 1\<rparr> \<and>
           ignoreSelection g' = ignoreSelection g \<and>
           state g' = Some (n + k) \<and>
           length (heap g') = n + k + 1 \<and>
           (\<forall>i<n. heap g' ! i = heap g ! i) \<and>
           (\<forall>j<k. heap g' ! (n + j) =
              \<lparr> editor = editorId e,
                next = (if j = 0 then None else Some (n + j - 1)),
                previous = Some (n + j + 1),
                selection = entryAsRange (survivors ! j) \<rparr>) \<and>
           heap g' ! (n + k) =
              \<lparr> editor = editorId e,
                next = (if k = 0 then None else Some (n + k - 1)),
                previous = None,
                selection = getSelection e \<rparr>"
proof -
  obtain h l where res: "linkStates e survivors (heap g) None = (h, l)"
    by (cases "linkStates e survivors (heap g) None")
  have spec: "length h = n + k \<and>
           l = (if survivors = [] then None else Some (n + k - 1)) \<and>
           (\<forall>i<n. h ! i = heap g ! i) \<and>
           (\<forall>j<k. h ! (n + j) =
              \<lparr> editor = editorId e,
                next = (if j = 0 then None else Some (n + j - 1)),
                previous = (if j + 1 < k then Some (n + j + 1) else None),
                selection = entryAsRange (survivors ! j) \<rparr>)"
    using linkStates_spec [where lastState = None and h = "heap g" and e = e and elements = survivors] res by (simp add: n_def k_def)
  define editorState where "editorState = (newState e)\<lparr>next := l\<rparr>"
  define h' where "h' = (case l of
      None \<Rightarrow> h @ [editorState]
    | Some a \<Rightarrow> (h @ [editorState])[a := (h ! a)\<lparr>previous := Some (length h)\<rparr>])"
  have build: "buildChain g e elements =
      (g\<lparr>heap := h', state := Some (length h)\<rparr>, e\<lparr>cursorListeners := cursorListeners e + 1\<rparr>)"
    unfolding h'_def editorState_def using ne res by (simp add: buildChain_def survivors_def Let_def)
  have k0: "survivors = [] \<longleftrightarrow> k = 0" by (simp add: k_def)
  have len: "length h' = n + k + 1"
    using spec by (simp add: h'_def split: option.splits)
  have old: "h' ! i = heap g ! i" if "i < n" for i
  proof -
    from that spec have "h ! i = heap g ! i" "i < length h" by simp_all
    moreover have "l \<noteq> Some i" using spec that k0 by (auto split: if_splits)
    then have "h' ! i = (h @ [editorState]) ! i"
      by (cases l) (simp_all add: h'_def)
    ultimately show ?thesis
      by (simp add: nth_append)
  qed
  have mid: "h' ! (n + j) =
              \<lparr> editor = editorId e,
                next = (if j = 0 then None else Some (n + j - 1)),
                previous = Some (n + j + 1),
                selection = entryAsRange (survivors ! j) \<rparr>" if "j < k" for j
  proof -
    from that spec have hj: "h ! (n + j) =
              \<lparr> editor = editorId e,
                next = (if j = 0 then None else Some (n + j - 1)),
                previous = (if j + 1 < k then Some (n + j + 1) else None),
                selection = entryAsRange (survivors ! j) \<rparr>" by blast
    from that have l: "l = Some (n + k - 1)" using spec k0 by simp
    have inh: "n + j < length h" using that spec by simp
    show ?thesis
    proof (cases "j + 1 < k")
      case True
      then have "n + k - 1 \<noteq> n + j" by simp
      with l inh hj True show ?thesis
        by (simp add: h'_def nth_append nth_list_update)
    next
      case False
      with that have "n + k - 1 = n + j" by simp
      with l inh hj spec show ?thesis
        by (simp add: h'_def nth_append nth_list_update)
    qed
  qed
  have top: "h' ! (n + k) =
              \<lparr> editor = editorId e,
                next = (if k = 0 then None else Some (n + k - 1)),
                previous = None,
                selection = getSelection e \<rparr>"
    using spec k0
    by (auto simp: h'_def editorState_def newState_def nth_append nth_list_update
             split: option.splits)
  show ?thesis
    unfolding build using spec len old mid top by simp
qed

lemma buildChain_nodes:
  fixes g :: Shared and e :: Editor and elements :: "ILogicalSelectionEntry list"
  defines "survivors \<equiv> filter (enclosesSelection e) elements"
  defines "n \<equiv> length (heap g)"
  defines "k \<equiv> length survivors"
  assumes ne: "elements \<noteq> []" and res: "buildChain g e elements = (g', e')"
  shows "e' = e\<lparr>cursorListeners := cursorListeners e + 1\<rparr>"
    and "ignoreSelection g' = ignoreSelection g"
    and "state g' = Some (n + k)"
    and "length (heap g') = n + k + 1"
    and "\<And>i. i < n \<Longrightarrow> heap g' ! i = heap g ! i"
    and "\<And>j. j \<le> k \<Longrightarrow> editor (heap g' ! (n + j)) = editorId e"
    and "\<And>j. j \<le> k \<Longrightarrow> next (heap g' ! (n + j)) = (if j = 0 then None else Some (n + j - 1))"
    and "\<And>j. j \<le> k \<Longrightarrow> previous (heap g' ! (n + j)) = (if j < k then Some (n + j + 1) else None)"
    and "\<And>j. j \<le> k \<Longrightarrow>
           selection (heap g' ! (n + j)) = (map entryAsRange survivors @ [getSelection e]) ! j"
proof -
  note spec = buildChain_spec [OF ne, where g = g and e = e, unfolded res, simplified,
                folded survivors_def n_def k_def]
  show "e' = e\<lparr>cursorListeners := cursorListeners e + 1\<rparr>" using spec by simp
  show "ignoreSelection g' = ignoreSelection g" using spec by simp
  show "state g' = Some (n + k)" using spec by simp
  show "length (heap g') = n + k + 1" using spec by simp
  show "heap g' ! i = heap g ! i" if "i < n" for i using spec that by simp
  have k0: "(survivors = []) = (k = 0)" by (simp add: k_def)
  from spec have mid: "heap g' ! (n + j) =
              \<lparr> editor = editorId e,
                next = (if j = 0 then None else Some (n + j - 1)),
                previous = Some (n + j + 1),
                selection = entryAsRange (survivors ! j) \<rparr>" if "j < k" for j
    using that by simp
  from spec have top: "heap g' ! (n + k) =
              \<lparr> editor = editorId e,
                next = (if k = 0 then None else Some (n + k - 1)),
                previous = None,
                selection = getSelection e \<rparr>"
    by (simp add: k0)
  show "editor (heap g' ! (n + j)) = editorId e" if "j \<le> k" for j
  proof (cases "j < k")
    case True
    then show ?thesis by (simp add: mid)
  next
    case False
    with that have "j = k" by simp
    then show ?thesis by (simp add: top)
  qed
  show "next (heap g' ! (n + j)) = (if j = 0 then None else Some (n + j - 1))" if "j \<le> k" for j
  proof (cases "j < k")
    case True
    then show ?thesis by (simp add: mid)
  next
    case False
    with that have "j = k" by simp
    then show ?thesis by (simp add: top)
  qed
  show "previous (heap g' ! (n + j)) = (if j < k then Some (n + j + 1) else None)"
    if "j \<le> k" for j
  proof (cases "j < k")
    case True
    then show ?thesis by (simp add: mid)
  next
    case False
    with that have "j = k" by simp
    then show ?thesis by (simp add: top)
  qed
  show "selection (heap g' ! (n + j)) = (map entryAsRange survivors @ [getSelection e]) ! j"
    if "j \<le> k" for j
  proof (cases "j < k")
    case True
    then show ?thesis by (simp add: mid nth_append k_def)
  next
    case False
    with that have jk: "j = k" by simp
    then have "selection (heap g' ! (n + j)) = getSelection e" by (simp add: top)
    moreover have "(map entryAsRange survivors @ [getSelection e]) ! j = getSelection e"
      using jk by (simp add: nth_append k_def)
    ultimately show ?thesis by simp
  qed
qed

lemma chainFrom_None: "chainFrom h fuel None = []"
  by (cases fuel) simp_all

lemma chainFrom_segment:
  assumes "\<And>j. j \<le> m \<Longrightarrow> selection (h ! (n + j)) = xs ! j"
      and "\<And>j. j \<le> m \<Longrightarrow> next (h ! (n + j)) = (if j = 0 then None else Some (n + j - 1))"
      and "m < fuel" and "m < length xs"
  shows "chainFrom h fuel (Some (n + m)) = rev (take (Suc m) xs)"
  using assms
proof (induction m arbitrary: fuel)
  case 0
  then obtain f where f: "fuel = Suc f" by (cases fuel) simp_all
  from 0 have "xs \<noteq> []" by auto
  then have "take (Suc 0) xs = [xs ! 0]" by (cases xs) simp_all
  with 0(1) [of 0] 0(2) [of 0] show ?case by (simp add: f chainFrom_None)
next
  case (Suc m)
  then obtain f where f: "fuel = Suc f" by (cases fuel) simp_all
  have ih: "chainFrom h f (Some (n + m)) = rev (take (Suc m) xs)"
    using Suc.prems by (intro Suc.IH) (simp_all add: f)
  have "take (Suc (Suc m)) xs = take (Suc m) xs @ [xs ! Suc m]"
    using Suc.prems(4) by (simp add: take_Suc_conv_app_nth)
  with Suc.prems(1) [of "Suc m"] Suc.prems(2) [of "Suc m"] ih show ?case
    by (simp add: f)
qed

lemma chain_buildChain:
  assumes "elements \<noteq> []"
  shows "chain (fst (buildChain g e elements)) =
           getSelection e # rev (map entryAsRange (filter (enclosesSelection e) elements))"
proof -
  obtain g' e' where res: "buildChain g e elements = (g', e')"
    by (cases "buildChain g e elements")
  note nodes = buildChain_nodes [OF assms res]
  let ?xs = "map entryAsRange (filter (enclosesSelection e) elements) @ [getSelection e]"
  let ?k = "length (filter (enclosesSelection e) elements)"
  have "chainFrom (heap g') (length (heap g')) (Some (length (heap g) + ?k)) =
          rev (take (Suc ?k) ?xs)"
    by (rule chainFrom_segment) (simp_all add: nodes)
  then show ?thesis
    by (simp add: chain_def res nodes)
qed

lemma linked_buildChain:
  assumes "linked (heap g)"
  shows "linked (heap (fst (buildChain g e elements)))"
proof (cases "elements = []")
  case True
  with assms show ?thesis by (simp add: buildChain_def)
next
  case False
  obtain g' e' where res: "buildChain g e elements = (g', e')"
    by (cases "buildChain g e elements")
  note nodes = buildChain_nodes [OF False res]
  let ?n = "length (heap g)"
  let ?k = "length (filter (enclosesSelection e) elements)"
  have old: "(\<forall>b. next (heap g' ! a) = Some b \<longrightarrow>
           b < length (heap g') \<and> previous (heap g' ! b) = Some a \<and>
           editor (heap g' ! b) = editor (heap g' ! a)) \<and>
        (\<forall>b. previous (heap g' ! a) = Some b \<longrightarrow>
           b < length (heap g') \<and> next (heap g' ! b) = Some a \<and>
           editor (heap g' ! b) = editor (heap g' ! a))" if "a < ?n" for a
  proof -
    have eq: "heap g' ! a = heap g ! a" using that by (rule nodes(5))
    from assms that
    have L: "(\<forall>b. next (heap g ! a) = Some b \<longrightarrow>
           b < ?n \<and> previous (heap g ! b) = Some a \<and> editor (heap g ! b) = editor (heap g ! a)) \<and>
        (\<forall>b. previous (heap g ! a) = Some b \<longrightarrow>
           b < ?n \<and> next (heap g ! b) = Some a \<and> editor (heap g ! b) = editor (heap g ! a))"
      unfolding linked_def by blast
    show ?thesis
      unfolding eq using L by (auto simp: nodes(4) nodes(5))
  qed
  have new: "(\<forall>b. next (heap g' ! (?n + j)) = Some b \<longrightarrow>
           b < length (heap g') \<and> previous (heap g' ! b) = Some (?n + j) \<and>
           editor (heap g' ! b) = editor (heap g' ! (?n + j))) \<and>
        (\<forall>b. previous (heap g' ! (?n + j)) = Some b \<longrightarrow>
           b < length (heap g') \<and> next (heap g' ! b) = Some (?n + j) \<and>
           editor (heap g' ! b) = editor (heap g' ! (?n + j)))" if "j \<le> ?k" for j
  proof (intro conjI allI impI)
    fix b assume "next (heap g' ! (?n + j)) = Some b"
    with nodes(7) [OF that] have j: "0 < j" and b: "b = ?n + (j - 1)"
      by (auto split: if_splits)
    from j that have le: "j - 1 \<le> ?k" and lt: "j - 1 < ?k" by simp_all
    show "b < length (heap g')" using b that j by (simp add: nodes(4))
    show "previous (heap g' ! b) = Some (?n + j)"
      using nodes(8) [OF le] lt j by (simp add: b)
    show "editor (heap g' ! b) = editor (heap g' ! (?n + j))"
      using nodes(6) [OF le] nodes(6) [OF that] by (simp add: b)
  next
    fix b assume "previous (heap g' ! (?n + j)) = Some b"
    with nodes(8) [OF that] have j: "j < ?k" and b: "b = ?n + (j + 1)"
      by (auto split: if_splits)
    from j have le: "j + 1 \<le> ?k" by simp
    show "b < length (heap g')" using b j by (simp add: nodes(4))
    show "next (heap g' ! b) = Some (?n + j)"
      using nodes(7) [OF le] by (simp add: b)
    show "editor (heap g' ! b) = editor (heap g' ! (?n + j))"
      using nodes(6) [OF le] nodes(6) [OF that] by (simp add: b)
  qed
  have "linked (heap g')"
    unfolding linked_def
  proof (intro allI impI)
    fix a assume a: "a < length (heap g')"
    show "(\<forall>b. next (heap g' ! a) = Some b \<longrightarrow>
           b < length (heap g') \<and> previous (heap g' ! b) = Some a \<and>
           editor (heap g' ! b) = editor (heap g' ! a)) \<and>
        (\<forall>b. previous (heap g' ! a) = Some b \<longrightarrow>
           b < length (heap g') \<and> next (heap g' ! b) = Some a \<and>
           editor (heap g' ! b) = editor (heap g' ! a))"
    proof (cases "a < ?n")
      case True
      then show ?thesis by (rule old)
    next
      case False
      then have "a = ?n + (a - ?n)" "a - ?n \<le> ?k" using a by (simp_all add: nodes(4))
      then show ?thesis using new [of "a - ?n"] by simp
    qed
  qed
  then show ?thesis by (simp add: res)
qed

lemma linked_code [code]:
  "linked h =
     list_all (\<lambda>a.
        (case next (h ! a) of
           None \<Rightarrow> True
         | Some b \<Rightarrow> b < length h \<and> previous (h ! b) = Some a \<and> editor (h ! b) = editor (h ! a)) \<and>
        (case previous (h ! a) of
           None \<Rightarrow> True
         | Some b \<Rightarrow> b < length h \<and> next (h ! b) = Some a \<and> editor (h ! b) = editor (h ! a)))
       [0..<length h]"
proof -
  have all_Some: "(\<forall>b. x = Some b \<longrightarrow> Q b) = (case x of None \<Rightarrow> True | Some b \<Rightarrow> Q b)"
    for x :: "nat option" and Q
    by (simp split: option.split)
  show ?thesis
    unfolding linked_def list_all_iff all_Some by auto
qed

lemma consistent_code [code]:
  "consistent g e =
     (linked (heap g) \<and> \<not> ignoreSelection g \<and>
      (case state g of
         None \<Rightarrow> True
       | Some a \<Rightarrow>
           a < length (heap g) \<and>
           (editor (heap g ! a) = editorId e \<longrightarrow>
              getSelection e = selection (heap g ! a) \<and> 0 < cursorListeners e)))"
  unfolding consistent_def by (simp split: option.splits)

lemma consecutive_snoc:
  "consecutive P (xs @ [y]) = (consecutive P xs \<and> (xs \<noteq> [] \<longrightarrow> P (last xs) y))"
  by (induction P xs rule: consecutive.induct) auto

lemma consecutive_Cons:
  "consecutive P (x # xs) = (consecutive P xs \<and> (xs \<noteq> [] \<longrightarrow> P x (hd xs)))"
  by (cases xs) auto

lemma consecutive_rev: "consecutive P (rev xs) = consecutive (\<lambda>a b. P b a) xs"
  by (induction xs) (auto simp: consecutive_snoc consecutive_Cons last_rev)

lemma enclosesSelection_containsRange:
  "enclosesSelection e element \<Longrightarrow> containsRange (entryAsRange element) (getSelection e)"
  by (simp add: enclosesSelection_def containsRange_def Let_def)

text \<open>
  Claim C4, as amended. The chain built from a non-empty answer, read outward through
  \<open>next\<close>, is the selection current at build time followed by the surviving candidates
  in the reverse of the order received. Every candidate on it contains both the start and
  the end of that selection, so the first candidate contains the head. Every state's range
  is contained in the range of its \<open>next\<close> state provided that, among the surviving
  candidates in the order received, each contains the one received after it.
\<close>

theorem built_chain_encloses:
  assumes "elements \<noteq> []"
  shows "chain (fst (buildChain g e elements)) =
           getSelection e # rev (map entryAsRange (filter (enclosesSelection e) elements)) \<and>
         (\<forall>r \<in> set (tl (chain (fst (buildChain g e elements)))).
            containsPosition r (getStartPosition (getSelection e)) \<and>
            containsPosition r (getEndPosition (getSelection e))) \<and>
         (consecutive (\<lambda>outer inner. containsRange outer inner)
            (map entryAsRange (filter (enclosesSelection e) elements)) \<longrightarrow>
          consecutive (\<lambda>n n'. containsRange n' n) (chain (fst (buildChain g e elements))))"
proof -
  let ?survivors = "filter (enclosesSelection e) elements"
  have c: "chain (fst (buildChain g e elements)) =
             getSelection e # rev (map entryAsRange ?survivors)"
    using assms by (rule chain_buildChain)
  have m: "containsRange r (getSelection e)" if "r \<in> set (map entryAsRange ?survivors)" for r
    using that by (auto dest: enclosesSelection_containsRange)
  have hd: "containsRange (hd (rev (map entryAsRange ?survivors))) (getSelection e)"
    if "?survivors \<noteq> []"
  proof -
    from that have "hd (rev (map entryAsRange ?survivors)) \<in> set (rev (map entryAsRange ?survivors))"
      by (intro hd_in_set) simp
    then show ?thesis using m by simp
  qed
  have "consecutive (\<lambda>n n'. containsRange n' n) (getSelection e # rev (map entryAsRange ?survivors))"
    if "consecutive (\<lambda>outer inner. containsRange outer inner) (map entryAsRange ?survivors)"
    using that hd by (simp add: consecutive_Cons consecutive_rev)
  with c m show ?thesis
    by (simp add: containsRange_def)
qed

text \<open>
  The theorem for the caret in column 5 and the answer that lists the line before the
  word.
\<close>

theorem built_chain_encloses_witness:
  "chain (fst (buildChain initialShared caretEditor outermostFirst)) =
     [Range 1 5 1 5, Range 1 3 1 7, Range 1 1 1 10] \<and>
   consecutive (\<lambda>n n'. containsRange n' n)
     (chain (fst (buildChain initialShared caretEditor outermostFirst)))"
proof -
  have ne: "outermostFirst \<noteq> []" by (simp add: outermostFirst_def)
  have ord: "consecutive (\<lambda>outer inner. containsRange outer inner)
               (map entryAsRange (filter (enclosesSelection caretEditor) outermostFirst))"
    by code_simp
  have sv: "getSelection caretEditor #
              rev (map entryAsRange (filter (enclosesSelection caretEditor) outermostFirst)) =
            [Range 1 5 1 5, Range 1 3 1 7, Range 1 1 1 10]"
    by code_simp
  note t = built_chain_encloses [OF ne, of initialShared caretEditor]
  from t have "chain (fst (buildChain initialShared caretEditor outermostFirst)) =
                 getSelection caretEditor #
                 rev (map entryAsRange (filter (enclosesSelection caretEditor) outermostFirst))"
    by (rule conjunct1)
  with sv have "chain (fst (buildChain initialShared caretEditor outermostFirst)) =
                  [Range 1 5 1 5, Range 1 3 1 7, Range 1 1 1 10]"
    by (simp only:)
  moreover from t ord have "consecutive (\<lambda>n n'. containsRange n' n)
     (chain (fst (buildChain initialShared caretEditor outermostFirst)))"
    by blast
  ultimately show ?thesis by blast
qed

text \<open>
  Claim C4 as stated fails when the provider answers from the innermost candidate to the
  outermost one: both candidates contain the caret, the line becomes the \<open>next\<close> of the
  head and the word the \<open>next\<close> of the line, and the line is not contained in the word.
  It also fails for the two adjacent statements, which both contain the caret while
  neither contains the other.
\<close>

theorem chain_not_monotone:
  "chain (fst (buildChain initialShared caretEditor innermostFirst)) =
     [Range 1 5 1 5, Range 1 1 1 10, Range 1 3 1 7] \<and>
   chain (fst (fst (run initialShared caretEditor True innermostFirst))) =
     [Range 1 1 1 10, Range 1 3 1 7] \<and>
   \<not> containsRange (Range 1 3 1 7) (Range 1 1 1 10) \<and>
   chain (fst (buildChain initialShared caretEditor adjacentSiblings)) =
     [Range 1 5 1 5, Range 1 5 1 9, Range 1 1 1 5] \<and>
   \<not> containsRange (Range 1 1 1 5) (Range 1 5 1 9)"
  by code_simp

subsection \<open>Stepping past an end of the chain\<close>

lemma applySelection_accepted:
  "\<not> refuses e r \<Longrightarrow>
     applySelection g e r = ((g\<lparr>ignoreSelection := False\<rparr>, e\<lparr>getSelection := r\<rparr>), Returned)"
  by (simp add: applySelection_def setSelection_def cursorPositionChanged_def)

lemma applySelection_refused:
  "refuses e r \<Longrightarrow> applySelection g e r = ((g\<lparr>ignoreSelection := False\<rparr>, e), Threw)"
  by (simp add: applySelection_def setSelection_def)

lemma buildChain_view:
  "getSelection (snd (buildChain g e elements)) = getSelection e \<and>
   refuses (snd (buildChain g e elements)) = refuses e \<and>
   editorId (snd (buildChain g e elements)) = editorId e"
  by (simp add: buildChain_def Let_def split: prod.splits)

lemma consistent_buildChain:
  assumes "linked (heap g)" and "\<not> ignoreSelection g" and "state g = None"
  shows "consistent (fst (buildChain g e elements)) (snd (buildChain g e elements)) \<and>
         (\<forall>a. state (fst (buildChain g e elements)) = Some a \<longrightarrow>
            editor (heap (fst (buildChain g e elements)) ! a) = editorId e \<and>
            previous (heap (fst (buildChain g e elements)) ! a) = None)"
proof (cases "elements = []")
  case True
  with assms show ?thesis by (simp add: buildChain_def consistent_def)
next
  case False
  obtain g' e' where res: "buildChain g e elements = (g', e')"
    by (cases "buildChain g e elements")
  note nodes = buildChain_nodes [OF False res]
  let ?k = "length (filter (enclosesSelection e) elements)"
  have "linked (heap g')"
    using linked_buildChain [OF assms(1), of e elements] by (simp add: res)
  moreover have "selection (heap g' ! (length (heap g) + ?k)) = getSelection e"
    using nodes(9) [of ?k] by (simp add: nth_append)
  moreover have "editor (heap g' ! (length (heap g) + ?k)) = editorId e"
    using nodes(6) [of ?k] by simp
  moreover have "previous (heap g' ! (length (heap g) + ?k)) = None"
    using nodes(8) [of ?k] by simp
  ultimately show ?thesis
    using assms(2) by (simp add: res consistent_def nodes(1-4))
qed

lemma run_keeps_state:
  assumes "state g = Some a" and "editor (heap g ! a) = editorId e"
  shows "run g e forward elements = step g e forward"
  using assms by (simp add: run_def ensureChain_def)

lemma state_None_same: "state g = None \<Longrightarrow> g\<lparr>state := None\<rparr> = g"
  by (cases g) simp

lemma run_builds:
  assumes "state g = None \<or> (\<exists>a. state g = Some a \<and> editor (heap g ! a) \<noteq> editorId e)"
  shows "run g e forward elements =
           step (fst (buildChain (g\<lparr>state := None\<rparr>) e elements))
                (snd (buildChain (g\<lparr>state := None\<rparr>) e elements)) forward"
  using assms
proof
  assume n: "state g = None"
  show ?thesis
    unfolding state_None_same [OF n] using n by (simp add: run_def ensureChain_def split: prod.splits)
next
  assume "\<exists>a. state g = Some a \<and> editor (heap g ! a) \<noteq> editorId e"
  then show ?thesis by (auto simp: run_def ensureChain_def split: prod.splits)
qed

lemma step_no_target:
  assumes "state g = Some a"
      and "(if forward then next (heap g ! a) else previous (heap g ! a)) = None"
  shows "step g e forward = ((g\<lparr>state := None\<rparr>, e), Returned)"
  using assms by (simp add: step_def)

lemma step_target:
  assumes "state g = Some a"
      and "(if forward then next (heap g ! a) else previous (heap g ! a)) = Some b"
      and "\<not> refuses e (selection (heap g ! b))"
  shows "step g e forward =
           ((g\<lparr>state := Some b, ignoreSelection := False\<rparr>,
             e\<lparr>getSelection := selection (heap g ! b)\<rparr>), Returned)"
  using assms by (simp add: step_def applySelection_accepted)

lemma shrink_from_empty:
  assumes "linked (heap g)" and "\<not> ignoreSelection g"
      and "state g = None \<or> (\<exists>a. state g = Some a \<and> editor (heap g ! a) \<noteq> editorId e)"
      and "buildChain (g\<lparr>state := None\<rparr>) e elements = (g', e')"
  shows "run g e False elements = ((g'\<lparr>state := None\<rparr>, e'), Returned)"
proof -
  have c: "\<forall>a. state g' = Some a \<longrightarrow> previous (heap g' ! a) = None"
    using consistent_buildChain [of "g\<lparr>state := None\<rparr>" e elements] assms(1,2,4) by simp
  have "step g' e' False = ((g'\<lparr>state := None\<rparr>, e'), Returned)"
  proof (cases "state g'")
    case None
    show ?thesis
      unfolding state_None_same [OF None] using None by (simp add: step_def)
  next
    case (Some a)
    with c show ?thesis by (simp add: step_def)
  qed
  with run_builds [OF assms(3), of False elements] assms(4) show ?thesis by simp
qed

lemma shrinkRepeatedly_from_empty:
  assumes "linked (heap g)" and "\<not> ignoreSelection g" and "state g = None"
  shows "getSelection (snd (shrinkRepeatedly g e answers)) = getSelection e"
  using assms
proof (induction answers arbitrary: g e)
  case Nil
  then show ?case by simp
next
  case (Cons elements rest)
  obtain g' e' where b: "buildChain (g\<lparr>state := None\<rparr>) e elements = (g', e')"
    by (cases "buildChain (g\<lparr>state := None\<rparr>) e elements")
  have r: "run g e False elements = ((g'\<lparr>state := None\<rparr>, e'), Returned)"
    using Cons.prems b by (intro shrink_from_empty) simp_all
  have "consistent g' e'"
    using consistent_buildChain [of "g\<lparr>state := None\<rparr>" e elements] Cons.prems b by simp
  then have "linked (heap (g'\<lparr>state := None\<rparr>))" "\<not> ignoreSelection (g'\<lparr>state := None\<rparr>)"
    by (simp_all add: consistent_def)
  then have "getSelection (snd (shrinkRepeatedly (g'\<lparr>state := None\<rparr>) e' rest)) = getSelection e'"
    by (intro Cons.IH) simp_all
  moreover have "getSelection e' = getSelection e"
    using buildChain_view [of "g\<lparr>state := None\<rparr>" e elements] b by simp
  ultimately show ?case by (simp add: r)
qed

text \<open>
  Claim C2, as amended. When the current state has no state in the requested direction,
  \<open>run\<close> forgets the chain (\<open>state\<close> becomes \<open>null\<close>), leaves the store, the
  guard flag and the editor as they were, so performs no selection change, and returns.
  From the innermost state, shrinking any number of times, whatever the range provider
  answers when a chain is rebuilt, leaves the selection where it was.
\<close>

theorem no_target_forgets_chain:
  assumes "linked (heap g)" and "\<not> ignoreSelection g"
      and "state g = Some a" and "editor (heap g ! a) = editorId e"
      and "(if forward then next (heap g ! a) else previous (heap g ! a)) = None"
  shows "run g e forward elements = ((g\<lparr>state := None\<rparr>, e), Returned) \<and>
         (\<not> forward \<longrightarrow> getSelection (snd (shrinkRepeatedly g e answers)) = getSelection e)"
proof -
  have r: "run g e forward elements = ((g\<lparr>state := None\<rparr>, e), Returned)" for elements
    using assms(3-5) by (simp add: run_keeps_state step_no_target)
  have "getSelection (snd (shrinkRepeatedly g e answers)) = getSelection e" if "\<not> forward"
  proof (cases answers)
    case Nil
    then show ?thesis by simp
  next
    case (Cons elements rest)
    have "getSelection (snd (shrinkRepeatedly (g\<lparr>state := None\<rparr>) e rest)) = getSelection e"
      using assms(1,2) by (intro shrinkRepeatedly_from_empty) simp_all
    with r [of elements] that Cons show ?thesis by simp
  qed
  with r show ?thesis by blast
qed

text \<open>
  The theorem at the innermost state of the chain built for the caret in column 5.
\<close>

theorem no_target_forgets_chain_witness:
  "run (fst atCaret) (snd atCaret) False [] = (((fst atCaret)\<lparr>state := None\<rparr>, snd atCaret), Returned) \<and>
   getSelection (snd (shrinkRepeatedly (fst atCaret) (snd atCaret) [[], outermostFirst, []])) =
     Range 1 5 1 5"
proof -
  have l: "linked (heap (fst atCaret))" by code_simp
  have i: "\<not> ignoreSelection (fst atCaret)" by code_simp
  have s: "state (fst atCaret) = Some 2" by code_simp
  have e: "editor (heap (fst atCaret) ! 2) = editorId (snd atCaret)" by code_simp
  have p: "(if False then next (heap (fst atCaret) ! 2) else previous (heap (fst atCaret) ! 2)) = None"
    by code_simp
  have v: "getSelection (snd atCaret) = Range 1 5 1 5" by code_simp
  note t = no_target_forgets_chain [OF l i s e p,
             where elements = "[]" and answers = "[[], outermostFirst, []]"]
  from t have a: "run (fst atCaret) (snd atCaret) False [] =
                    (((fst atCaret)\<lparr>state := None\<rparr>, snd atCaret), Returned)"
    by (rule conjunct1)
  from t have "getSelection (snd (shrinkRepeatedly (fst atCaret) (snd atCaret)
                  [[], outermostFirst, []])) = getSelection (snd atCaret)"
    by blast
  with v have b: "getSelection (snd (shrinkRepeatedly (fst atCaret) (snd atCaret)
                  [[], outermostFirst, []])) = Range 1 5 1 5"
    by (simp only:)
  from a b show ?thesis by (rule conjI)
qed

text \<open>
  Claim C2 as stated leaves the current state unchanged. At the innermost state, state 2 of
  the store, which has no \<open>previous\<close>, shrinking leaves no current state. At the
  outermost state, state 0, which has no \<open>next\<close> and whose range is the line, growing
  leaves no current state either, and a shrink after it does not return to the word: the
  selection stays on the line.
\<close>

theorem stepping_past_end_forgets_state:
  "state (fst atCaret) = Some 2 \<and> previous (heap (fst atCaret) ! 2) = None \<and>
   state (fst (fst (run (fst atCaret) (snd atCaret) False []))) = None \<and>
   state (fst atLine) = Some 0 \<and> next (heap (fst atLine) ! 0) = None \<and>
   getSelection (snd atLine) = Range 1 1 1 10 \<and>
   state (fst (fst (run (fst atLine) (snd atLine) True outermostFirst))) = None \<and>
   (case run (fst atLine) (snd atLine) True outermostFirst of ((g1, e1), o1) \<Rightarrow>
      case run g1 e1 False outermostFirst of ((g2, e2), o2) \<Rightarrow> getSelection e2) =
     Range 1 1 1 10"
  by code_simp

subsection \<open>The states between two calls\<close>

text \<open>
  \<open>consistent\<close> holds initially and is kept by \<open>run\<close>, as long as \<open>setSelection\<close>
  does not throw, and by cursor moves of the user.
\<close>

lemma consistent_ensureChain:
  assumes "consistent g e"
  shows "consistent (fst (ensureChain g e elements)) (snd (ensureChain g e elements))"
    and "getSelection (snd (ensureChain g e elements)) = getSelection e"
    and "refuses (snd (ensureChain g e elements)) = refuses e"
    and "editorId (snd (ensureChain g e elements)) = editorId e"
    and "\<And>a. state (fst (ensureChain g e elements)) = Some a \<Longrightarrow>
           editor (heap (fst (ensureChain g e elements)) ! a) = editorId e"
proof -
  define g1 where "g1 = (case state g of
                  None \<Rightarrow> g
                | Some a \<Rightarrow> if editor (heap g ! a) \<noteq> editorId e then g\<lparr>state := None\<rparr> else g)"
  have p: "ensureChain g e elements =
             (if state g1 = None then buildChain g1 e elements else (g1, e))"
    unfolding ensureChain_def g1_def Let_def ..
  have g1: "linked (heap g1)" "\<not> ignoreSelection g1"
    using assms(1) by (auto simp: g1_def consistent_def split: option.splits)
  have g1s: "state g1 = Some a \<Longrightarrow> g1 = g \<and> editor (heap g ! a) = editorId e" for a
    by (auto simp: g1_def split: option.splits if_splits)
  show "consistent (fst (ensureChain g e elements)) (snd (ensureChain g e elements))"
  proof (cases "state g1")
    case None
    with g1 show ?thesis using consistent_buildChain [of g1 e elements] by (simp add: p)
  next
    case (Some a)
    with g1s [OF Some] assms(1) show ?thesis by (simp add: p)
  qed
  show "getSelection (snd (ensureChain g e elements)) = getSelection e"
    by (simp add: p buildChain_view)
  show "refuses (snd (ensureChain g e elements)) = refuses e"
    by (simp add: p buildChain_view)
  show "editorId (snd (ensureChain g e elements)) = editorId e"
    by (simp add: p buildChain_view)
  show "editor (heap (fst (ensureChain g e elements)) ! a) = editorId e"
    if "state (fst (ensureChain g e elements)) = Some a" for a
  proof (cases "state g1")
    case None
    with g1 that show ?thesis using consistent_buildChain [of g1 e elements] by (simp add: p)
  next
    case (Some b)
    with g1s [OF Some] that show ?thesis by (simp add: p)
  qed
qed

lemma run_as_step:
  "run g e forward elements =
     step (fst (ensureChain g e elements)) (snd (ensureChain g e elements)) forward"
  by (simp add: run_def split: prod.splits)

lemma linked_next:
  "linked h \<Longrightarrow> a < length h \<Longrightarrow> next (h ! a) = Some b \<Longrightarrow>
     b < length h \<and> previous (h ! b) = Some a \<and> editor (h ! b) = editor (h ! a)"
  unfolding linked_def by blast

lemma linked_previous:
  "linked h \<Longrightarrow> a < length h \<Longrightarrow> previous (h ! a) = Some b \<Longrightarrow>
     b < length h \<and> next (h ! b) = Some a \<and> editor (h ! b) = editor (h ! a)"
  unfolding linked_def by blast

lemma step_preserves_consistent:
  assumes "consistent g e" and "\<forall>r. \<not> refuses e r"
      and "\<And>a. state g = Some a \<Longrightarrow> editor (heap g ! a) = editorId e"
  shows "consistent (fst (fst (step g e forward))) (snd (fst (step g e forward)))"
proof (cases "state g")
  case None
  with assms(1) show ?thesis by (simp add: step_def)
next
  case (Some a)
  from assms(1) Some have a: "a < length (heap g)" "linked (heap g)" "\<not> ignoreSelection g"
      "0 < cursorListeners e"
    using assms(3) [OF Some] by (simp_all add: consistent_def)
  show ?thesis
  proof (cases "if forward then next (heap g ! a) else previous (heap g ! a)")
    case None
    with Some a show ?thesis by (simp add: step_no_target consistent_def)
  next
    case (Some b)
    have b: "b < length (heap g)" "editor (heap g ! b) = editor (heap g ! a)"
      using linked_next [OF a(2,1), of b] linked_previous [OF a(2,1), of b] Some
      by (cases forward; simp)+
    from assms(2) have "\<not> refuses e (selection (heap g ! b))" by simp
    from step_target [OF \<open>state g = Some a\<close> Some this] a b show ?thesis
      by (simp add: consistent_def)
  qed
qed

lemma run_preserves_consistent:
  assumes "consistent g e" and "\<forall>r. \<not> refuses e r"
  shows "consistent (fst (fst (run g e forward elements))) (snd (fst (run g e forward elements)))"
proof -
  note p = consistent_ensureChain [OF assms(1), of elements]
  show ?thesis
    unfolding run_as_step using p(1) assms(2) p(5)
    by (intro step_preserves_consistent) (simp_all add: p(3) p(4))
qed

lemma consistent_initialShared: "consistent initialShared e"
  by (simp add: consistent_def initialShared_def linked_def)

lemma userMovesCursor_preserves_consistent:
  assumes "consistent g e"
  shows "consistent (fst (userMovesCursor g e r)) (snd (userMovesCursor g e r))"
  using assms by (auto simp: userMovesCursor_def cursorPositionChanged_def consistent_def)

lemma grow_shrink_step:
  assumes "consistent g e" and "\<forall>r. \<not> refuses e r"
      and "\<And>a. state g = Some a \<Longrightarrow> editor (heap g ! a) = editorId e"
  shows "(case step g e True of ((g1, e1), o1) \<Rightarrow>
            case run g1 e1 False elements of ((g2, e2), o2) \<Rightarrow> getSelection e2) = getSelection e"
proof -
  have empty: "(case run g' e False elements of ((g2, e2), o2) \<Rightarrow> getSelection e2) = getSelection e"
    if "linked (heap g')" "\<not> ignoreSelection g'" "state g' = None" for g'
  proof -
    obtain g'' e'' where b: "buildChain (g'\<lparr>state := None\<rparr>) e elements = (g'', e'')"
      by (cases "buildChain (g'\<lparr>state := None\<rparr>) e elements")
    have "run g' e False elements = ((g''\<lparr>state := None\<rparr>, e''), Returned)"
      using that b by (intro shrink_from_empty) simp_all
    moreover have "getSelection e'' = getSelection e"
      using buildChain_view [of "g'\<lparr>state := None\<rparr>" e elements] b by simp
    ultimately show ?thesis by simp
  qed
  from assms(1) have l: "linked (heap g)" "\<not> ignoreSelection g" by (simp_all add: consistent_def)
  show ?thesis
  proof (cases "state g")
    case None
    with empty [of g] l show ?thesis by (simp add: step_def)
  next
    case (Some a)
    note ed = assms(3) [OF Some]
    from assms(1) Some ed have a: "a < length (heap g)" "getSelection e = selection (heap g ! a)"
      by (simp_all add: consistent_def)
    show ?thesis
    proof (cases "next (heap g ! a)")
      case None
      with Some have "step g e True = ((g\<lparr>state := None\<rparr>, e), Returned)"
        by (simp add: step_no_target)
      with empty [of "g\<lparr>state := None\<rparr>"] l show ?thesis by simp
    next
      case (Some b)
      have b: "b < length (heap g)" "previous (heap g ! b) = Some a"
          "editor (heap g ! b) = editor (heap g ! a)"
        using linked_next [OF l(1) a(1) Some] by simp_all
      let ?g1 = "g\<lparr>state := Some b, ignoreSelection := False\<rparr>"
      let ?e1 = "e\<lparr>getSelection := selection (heap g ! b)\<rparr>"
      have s1: "step g e True = ((?g1, ?e1), Returned)"
        using \<open>state g = Some a\<close> Some assms(2) by (intro step_target) simp_all
      have "run ?g1 ?e1 False elements = step ?g1 ?e1 False"
        using b ed by (intro run_keeps_state [where a = b]) simp_all
      also have "\<dots> = ((?g1\<lparr>state := Some a, ignoreSelection := False\<rparr>,
                         ?e1\<lparr>getSelection := selection (heap ?g1 ! a)\<rparr>), Returned)"
        using b assms(2) by (intro step_target [where a = b]) simp_all
      finally show ?thesis using a(2) by (simp add: s1)
    qed
  qed
qed

lemma run_refuses: "refuses (snd (fst (run g e forward elements))) = refuses e"
proof -
  have a: "refuses (snd (fst (applySelection g' e' r))) = refuses e'" for g' e' r
    by (cases "refuses e' r") (simp_all add: applySelection_accepted applySelection_refused)
  have s: "refuses (snd (fst (step g' e' forward))) = refuses e'" for g' e'
    by (simp add: step_def a split: option.splits)
  have "refuses (snd (ensureChain g e elements)) = refuses e"
    by (simp add: ensureChain_def Let_def buildChain_view)
  then show ?thesis by (simp add: run_as_step s)
qed

text \<open>
  Claim C5. From every consistent state, with a \<open>setSelection\<close> that does not throw,
  growing and then shrinking leaves the editor with the selection it had before, whatever
  the range provider answers; and growing at the outward end of the chain changes no
  selection.
\<close>

theorem grow_then_shrink_restores:
  assumes "consistent g e" and "\<forall>r. \<not> refuses e r"
  shows "(case run g e True elements of ((g1, e1), o1) \<Rightarrow>
            case run g1 e1 False elements' of ((g2, e2), o2) \<Rightarrow> getSelection e2) = getSelection e \<and>
         (\<forall>a. state g = Some a \<and> editor (heap g ! a) = editorId e \<and> next (heap g ! a) = None \<longrightarrow>
            getSelection (snd (fst (run g e True elements))) = getSelection e)"
proof -
  note p = consistent_ensureChain [OF assms(1), of elements]
  let ?g = "fst (ensureChain g e elements)" and ?e = "snd (ensureChain g e elements)"
  have "(case step ?g ?e True of ((g1, e1), o1) \<Rightarrow>
            case run g1 e1 False elements' of ((g2, e2), o2) \<Rightarrow> getSelection e2) = getSelection ?e"
    using p(1) assms(2) p(5) by (intro grow_shrink_step) (simp_all add: p(3) p(4))
  then have first: "(case run g e True elements of ((g1, e1), o1) \<Rightarrow>
            case run g1 e1 False elements' of ((g2, e2), o2) \<Rightarrow> getSelection e2) = getSelection e"
    by (simp add: run_as_step p(2))
  have "getSelection (snd (fst (run g e True elements))) = getSelection e"
    if "state g = Some a" "editor (heap g ! a) = editorId e" "next (heap g ! a) = None" for a
    using that by (simp add: run_keeps_state step_no_target)
  with first show ?thesis by blast
qed

text \<open>
  The theorem at the initial state, where growing builds the chain first, and at the state
  on the word, in the middle of the chain.
\<close>

theorem grow_then_shrink_restores_witness:
  "(case run initialShared caretEditor True outermostFirst of ((g1, e1), o1) \<Rightarrow>
      case run g1 e1 False [] of ((g2, e2), o2) \<Rightarrow> getSelection e2) = Range 1 5 1 5 \<and>
   (case run (fst atWord) (snd atWord) True [] of ((g1, e1), o1) \<Rightarrow>
      case run g1 e1 False [] of ((g2, e2), o2) \<Rightarrow> getSelection e2) = Range 1 3 1 7"
proof -
  have c0: "consistent initialShared caretEditor" by code_simp
  have r0: "\<forall>r. \<not> refuses caretEditor r" by (simp add: caretEditor_def)
  have c1: "consistent (fst atWord) (snd atWord)" by code_simp
  have r1: "\<forall>r. \<not> refuses (snd atWord) r"
    using r0 by (simp add: atWord_def run_refuses)
  have v0: "getSelection caretEditor = Range 1 5 1 5" by code_simp
  have v1: "getSelection (snd atWord) = Range 1 3 1 7" by code_simp
  from grow_then_shrink_restores [OF c0 r0, where elements = outermostFirst and elements' = "[]"]
  have "(case run initialShared caretEditor True outermostFirst of ((g1, e1), o1) \<Rightarrow>
      case run g1 e1 False [] of ((g2, e2), o2) \<Rightarrow> getSelection e2) = getSelection caretEditor"
    by (rule conjunct1)
  with v0 have a: "(case run initialShared caretEditor True outermostFirst of ((g1, e1), o1) \<Rightarrow>
      case run g1 e1 False [] of ((g2, e2), o2) \<Rightarrow> getSelection e2) = Range 1 5 1 5"
    by (simp only:)
  from grow_then_shrink_restores [OF c1 r1, where elements = "[]" and elements' = "[]"]
  have "(case run (fst atWord) (snd atWord) True [] of ((g1, e1), o1) \<Rightarrow>
      case run g1 e1 False [] of ((g2, e2), o2) \<Rightarrow> getSelection e2) = getSelection (snd atWord)"
    by (rule conjunct1)
  with v1 have b: "(case run (fst atWord) (snd atWord) True [] of ((g1, e1), o1) \<Rightarrow>
      case run g1 e1 False [] of ((g2, e2), o2) \<Rightarrow> getSelection e2) = Range 1 3 1 7"
    by (simp only:)
  from a b show ?thesis by (rule conjI)
qed

subsection \<open>The guard flag\<close>

text \<open>
  Claim C8. After lines 137-142 the guard flag is down, whether \<open>setSelection\<close> returned
  or threw; a throwing \<open>setSelection\<close> makes the call end with the exception; the next
  cursor move of the user on an editor with a live listener forgets the state; and a call
  of \<open>run\<close> that starts with the flag down ends with the flag down.
\<close>

theorem guard_flag_released:
  "\<not> ignoreSelection (fst (fst (applySelection g e r))) \<and>
   (refuses e r \<longrightarrow> snd (applySelection g e r) = Threw) \<and>
   (0 < cursorListeners (snd (fst (applySelection g e r))) \<longrightarrow>
      state (fst (userMovesCursor (fst (fst (applySelection g e r)))
                                  (snd (fst (applySelection g e r))) r')) = None) \<and>
   (\<not> ignoreSelection g \<longrightarrow> \<not> ignoreSelection (fst (fst (run g e forward elements))))"
proof -
  have flag: "\<not> ignoreSelection (fst (fst (applySelection g' e' r'')))" for g' e' r''
    by (cases "refuses e' r''") (simp_all add: applySelection_accepted applySelection_refused)
  have thrown: "snd (applySelection g e r) = Threw" if "refuses e r"
    using that by (simp add: applySelection_refused)
  have later: "state (fst (userMovesCursor (fst (fst (applySelection g e r)))
                                  (snd (fst (applySelection g e r))) r')) = None"
    if "0 < cursorListeners (snd (fst (applySelection g e r)))"
    using that flag [of g e r] by (simp add: userMovesCursor_def cursorPositionChanged_def)
  have build: "ignoreSelection (fst (buildChain g' e' els)) = ignoreSelection g'" for g' e' els
    by (simp add: buildChain_def Let_def split: prod.splits)
  have stepf: "\<not> ignoreSelection (fst (fst (step g' e' forward)))" if "\<not> ignoreSelection g'" for g' e'
    using that flag by (simp add: step_def split: option.splits)
  have "\<not> ignoreSelection (fst (ensureChain g e elements))" if "\<not> ignoreSelection g"
    using that by (simp add: ensureChain_def Let_def build split: option.splits)
  then have "\<not> ignoreSelection (fst (fst (run g e forward elements)))" if "\<not> ignoreSelection g"
    unfolding run_as_step using that by (intro stepf) simp
  with flag thrown later show ?thesis by blast
qed

text \<open>
  The theorem for an editor whose \<open>setSelection\<close> throws, at the state on the word and
  at the initial state.
\<close>

theorem guard_flag_released_witness:
  "snd (applySelection (fst atWord) (throwingEditor\<lparr>cursorListeners := 1\<rparr>) (Range 1 1 1 10)) = Threw \<and>
   \<not> ignoreSelection
       (fst (fst (applySelection (fst atWord) (throwingEditor\<lparr>cursorListeners := 1\<rparr>)
                    (Range 1 1 1 10)))) \<and>
   state (fst (userMovesCursor
       (fst (fst (applySelection (fst atWord) (throwingEditor\<lparr>cursorListeners := 1\<rparr>)
                    (Range 1 1 1 10))))
       (snd (fst (applySelection (fst atWord) (throwingEditor\<lparr>cursorListeners := 1\<rparr>)
                    (Range 1 1 1 10))))
       (Range 1 2 1 2))) = None \<and>
   \<not> ignoreSelection (fst (fst (run initialShared throwingEditor True outermostFirst)))"
proof -
  let ?e = "throwingEditor\<lparr>cursorListeners := 1\<rparr>"
  have r: "refuses ?e (Range 1 1 1 10)" by (simp add: throwingEditor_def)
  have c: "0 < cursorListeners (snd (fst (applySelection (fst atWord) ?e (Range 1 1 1 10))))"
    using applySelection_refused [OF r, of "fst atWord"] by simp
  have i: "\<not> ignoreSelection initialShared" by (simp add: initialShared_def)
  from guard_flag_released [of "fst atWord" ?e "Range 1 1 1 10" "Range 1 2 1 2"
         True outermostFirst]
       guard_flag_released [of initialShared throwingEditor "Range 1 1 1 10" "Range 1 2 1 2"
         True outermostFirst] r c i
  show ?thesis by blast
qed

end
